theory Spec2Isabelle
  imports Complex_Main
begin

section \<open>IceDeck V2 firmware: matrix scanner, encoder and control loop\<close>

text \<open>
  A shallow embedding of \<^verbatim>\<open>src/Firmware/main.py\<close>. Times are the values of
  \<^verbatim>\<open>time.monotonic()\<close> (seconds) and \<^verbatim>\<open>time.monotonic() * 1000\<close>
  (milliseconds); Python's floats are read as exact reals. Every hardware read is an input
  of the model and may raise: it is a value of type \<open>py_exn + 'a\<close>.
\<close>

subsection \<open>Exceptions\<close>

datatype py_exn = OSError | ValueError | IndexError | KeyboardInterrupt

text \<open>\<^verbatim>\<open>except Exception\<close> catches everything but \<^verbatim>\<open>KeyboardInterrupt\<close>.\<close>

definition is_Exception :: "py_exn \<Rightarrow> bool" where
  "is_Exception e = (e \<noteq> KeyboardInterrupt)"

subsection \<open>Configuration constants\<close>

definition MATRIX_ROWS :: nat where "MATRIX_ROWS = 3"
definition MATRIX_COLS :: nat where "MATRIX_COLS = 3"
definition DEBOUNCE_MS :: real where "DEBOUNCE_MS = 20"
definition ENCODER_ENABLED :: bool where "ENCODER_ENABLED = True"

subsection \<open>MatrixScanner\<close>

text \<open>
  The two tables \<^verbatim>\<open>key_states\<close> and \<^verbatim>\<open>last_press_time\<close> are lists of rows, built
  by \<^verbatim>\<open>__init__\<close> with one fresh inner list per row (no aliasing between rows).
\<close>

record matrix_scanner =
  debounce_ms :: real
  num_rows :: nat
  num_cols :: nat
  key_states :: "bool list list"
  last_press_time :: "real list list"

definition MatrixScanner_init :: "nat \<Rightarrow> nat \<Rightarrow> real \<Rightarrow> matrix_scanner" where
  "MatrixScanner_init n_rows n_cols debounce =
     \<lparr> debounce_ms = debounce, num_rows = n_rows, num_cols = n_cols,
       key_states = replicate n_rows (replicate n_cols False),
       last_press_time = replicate n_rows (replicate n_cols 0) \<rparr>"

text \<open>\<^verbatim>\<open>m[r][c]\<close> and \<^verbatim>\<open>m[r][c] = v\<close>.\<close>

definition get2 :: "'a list list \<Rightarrow> nat \<Rightarrow> nat \<Rightarrow> 'a" where
  "get2 m r c = m ! r ! c"

definition set2 :: "'a list list \<Rightarrow> nat \<Rightarrow> nat \<Rightarrow> 'a \<Rightarrow> 'a list list" where
  "set2 m r c v = m[r := (m ! r)[c := v]]"

text \<open>
  The shape \<^verbatim>\<open>__init__\<close> establishes: \<open>num_rows\<close> rows of \<open>num_cols\<close> entries. The
  loops of \<^verbatim>\<open>scan\<close> index the tables only below these bounds, so no index is out of
  range on a state of this shape.
\<close>

definition dims :: "'a list list \<Rightarrow> nat \<Rightarrow> nat \<Rightarrow> bool" where
  "dims m R C = (length m = R \<and> list_all (\<lambda>row. length row = C) m)"

definition wf_scanner :: "matrix_scanner \<Rightarrow> bool" where
  "wf_scanner s = (dims (key_states s) (num_rows s) (num_cols s) \<and>
                   dims (last_press_time s) (num_rows s) (num_cols s))"

type_synonym raw_reader = "nat \<Rightarrow> nat \<Rightarrow> py_exn + bool"

text \<open>
  The debounce logic of one cell (the body of the inner loop after the read), on the
  scanner and the list \<^verbatim>\<open>pressed_keys\<close> built so far.
\<close>

definition debounce_cell ::
  "real \<Rightarrow> nat \<Rightarrow> nat \<Rightarrow> bool \<Rightarrow> matrix_scanner \<times> (nat \<times> nat) list
     \<Rightarrow> matrix_scanner \<times> (nat \<times> nat) list" where
  "debounce_cell current_time row_idx col_idx is_pressed acc =
     (let s = fst acc; pressed_keys = snd acc in
      if is_pressed \<and> \<not> get2 (key_states s) row_idx col_idx then
        (if current_time - get2 (last_press_time s) row_idx col_idx > debounce_ms s then
           (s\<lparr> key_states := set2 (key_states s) row_idx col_idx True,
               last_press_time := set2 (last_press_time s) row_idx col_idx current_time \<rparr>,
            pressed_keys @ [(row_idx, col_idx)])
         else (s, pressed_keys))
      else if \<not> is_pressed \<and> get2 (key_states s) row_idx col_idx then
        (if current_time - get2 (last_press_time s) row_idx col_idx > debounce_ms s then
           (s\<lparr> key_states := set2 (key_states s) row_idx col_idx False \<rparr>, pressed_keys)
         else (s, pressed_keys))
      else (s, pressed_keys))"

text \<open>The inner loop: the rows of one column, each read through \<^verbatim>\<open>row_pin.value\<close>.\<close>

fun scan_rows ::
  "raw_reader \<Rightarrow> real \<Rightarrow> nat \<Rightarrow> nat list \<Rightarrow> matrix_scanner \<times> (nat \<times> nat) list
     \<Rightarrow> py_exn + matrix_scanner \<times> (nat \<times> nat) list" where
  "scan_rows raw current_time col_idx [] acc = Inr acc"
| "scan_rows raw current_time col_idx (row_idx # rest) acc =
     (case raw row_idx col_idx of
        Inl e \<Rightarrow> Inl e
      | Inr is_pressed \<Rightarrow>
          scan_rows raw current_time col_idx rest
            (debounce_cell current_time row_idx col_idx is_pressed acc))"

text \<open>The outer loop over the columns.\<close>

fun scan_cols ::
  "raw_reader \<Rightarrow> real \<Rightarrow> nat list \<Rightarrow> matrix_scanner \<times> (nat \<times> nat) list
     \<Rightarrow> py_exn + matrix_scanner \<times> (nat \<times> nat) list" where
  "scan_cols raw current_time [] acc = Inr acc"
| "scan_cols raw current_time (col_idx # rest) acc =
     (case scan_rows raw current_time col_idx [0..<num_rows (fst acc)] acc of
        Inl e \<Rightarrow> Inl e
      | Inr acc' \<Rightarrow> scan_cols raw current_time rest acc')"

definition scan ::
  "matrix_scanner \<Rightarrow> raw_reader \<Rightarrow> real \<Rightarrow> py_exn + matrix_scanner \<times> (nat \<times> nat) list" where
  "scan s raw current_time = scan_cols raw current_time [0..<num_cols s] (s, [])"

text \<open>The debounced state and the timestamp of a cell.\<close>

definition pressed :: "matrix_scanner \<Rightarrow> nat \<Rightarrow> nat \<Rightarrow> bool" where
  "pressed s r c = get2 (key_states s) r c"

definition stamp :: "matrix_scanner \<Rightarrow> nat \<Rightarrow> nat \<Rightarrow> real" where
  "stamp s r c = get2 (last_press_time s) r c"

text \<open>A sequence of scan calls: the scanner after each call, and what each call returned.\<close>

fun scans ::
  "matrix_scanner \<Rightarrow> (real \<times> raw_reader) list
     \<Rightarrow> py_exn + (matrix_scanner \<times> (nat \<times> nat) list) list" where
  "scans s [] = Inr []"
| "scans s ((t, raw) # rest) =
     (case scan s raw t of
        Inl e \<Rightarrow> Inl e
      | Inr (s', keys) \<Rightarrow>
          (case scans s' rest of Inl e \<Rightarrow> Inl e | Inr out \<Rightarrow> Inr ((s', keys) # out)))"

text \<open>A reader on which every read succeeds: the listed cells are closed.\<close>

definition closed_cells :: "(nat \<times> nat) list \<Rightarrow> raw_reader" where
  "closed_cells cells r c = Inr ((r, c) \<in> set cells)"

text \<open>A reader whose read of one cell raises.\<close>

definition failing_at :: "nat \<Rightarrow> nat \<Rightarrow> py_exn \<Rightarrow> raw_reader" where
  "failing_at r0 c0 e r c = (if r = r0 \<and> c = c0 then Inl e else Inr False)"

subsection \<open>EncoderController\<close>

text \<open>
  \<^verbatim>\<open>__init__\<close> sets \<^verbatim>\<open>last_position\<close> and \<^verbatim>\<open>last_switch_state\<close> only on the way to
  \<^verbatim>\<open>enabled = True\<close>; on a failed construction the two fields of the record hold
  placeholders that \<^verbatim>\<open>update\<close> never reads. The two arguments are the outcomes of
  creating the encoder and the switch (\<open>None\<close>: no exception).
\<close>

record encoder_controller =
  enabled :: bool
  last_position :: int
  last_switch_state :: bool

definition EncoderController_init ::
  "py_exn option \<Rightarrow> py_exn option \<Rightarrow> py_exn + encoder_controller" where
  "EncoderController_init encoder_fault switch_fault =
     (case encoder_fault of
        Some e \<Rightarrow>
          (if is_Exception e
           then Inr \<lparr> enabled = False, last_position = 0, last_switch_state = True \<rparr>
           else Inl e)
      | None \<Rightarrow>
          (case switch_fault of
             Some e \<Rightarrow>
               (if is_Exception e
                then Inr \<lparr> enabled = False, last_position = 0, last_switch_state = True \<rparr>
                else Inl e)
           | None \<Rightarrow> Inr \<lparr> enabled = True, last_position = 0, last_switch_state = True \<rparr>))"

datatype hw_access = ReadPosition | ReadSwitch

text \<open>
  \<^verbatim>\<open>update\<close>: the result \<^verbatim>\<open>(rotation, button_pressed)\<close>, the hardware reads it
  made, and the controller afterwards. The arguments are what \<^verbatim>\<open>self.encoder.position\<close>
  and \<^verbatim>\<open>self.switch.value\<close> give when they are read.
\<close>

definition update ::
  "encoder_controller \<Rightarrow> py_exn + int \<Rightarrow> py_exn + bool
     \<Rightarrow> py_exn + (int \<times> bool) \<times> hw_access list \<times> encoder_controller" where
  "update s position_read switch_read =
     (if \<not> enabled s then Inr ((0, False), [], s)
      else
        (case position_read of
           Inl e \<Rightarrow> (if is_Exception e then Inr ((0, False), [ReadPosition], s) else Inl e)
         | Inr current_position \<Rightarrow>
             (let rotation =
                    (if current_position > last_position s then 1
                     else if current_position < last_position s then - 1 else 0);
                  s1 =
                    (if current_position > last_position s
                     then s\<lparr> last_position := current_position \<rparr>
                     else if current_position < last_position s
                     then s\<lparr> last_position := current_position \<rparr> else s)
              in
                (case switch_read of
                   Inl e \<Rightarrow>
                     (if is_Exception e
                      then Inr ((rotation, False), [ReadPosition, ReadSwitch], s1) else Inl e)
                 | Inr current_switch \<Rightarrow>
                     (if \<not> current_switch \<and> last_switch_state s1 then
                        Inr ((rotation, True), [ReadPosition, ReadSwitch],
                             s1\<lparr> last_switch_state := current_switch \<rparr>)
                      else if current_switch \<and> \<not> last_switch_state s1 then
                        Inr ((rotation, False), [ReadPosition, ReadSwitch],
                             s1\<lparr> last_switch_state := current_switch \<rparr>)
                      else Inr ((rotation, False), [ReadPosition, ReadSwitch], s1))))))"

text \<open>Successive polls: the results in order, all the reads made, the controller at the end.\<close>

fun updates ::
  "encoder_controller \<Rightarrow> ((py_exn + int) \<times> (py_exn + bool)) list
     \<Rightarrow> py_exn + (int \<times> bool) list \<times> hw_access list \<times> encoder_controller" where
  "updates s [] = Inr ([], [], s)"
| "updates s ((position_read, switch_read) # rest) =
     (case update s position_read switch_read of
        Inl e \<Rightarrow> Inl e
      | Inr (res, acc, s') \<Rightarrow>
          (case updates s' rest of
             Inl e \<Rightarrow> Inl e
           | Inr (ress, accs, s'') \<Rightarrow> Inr (res # ress, acc @ accs, s'')))"

subsection \<open>Keys and the keymap\<close>

datatype key =
    KC_MEDIA_PREV_TRACK | KC_MEDIA_PLAY_PAUSE | KC_MEDIA_NEXT_TRACK
  | KC_BRIGHTNESS_DOWN | KC_NO | KC_BRIGHTNESS_UP
  | KC_M | KC_D | KC_SLASH
  | KC_AUDIO_VOL_UP | KC_AUDIO_VOL_DOWN | KC_AUDIO_MUTE
  | KC_LCTRL key | KC_LALT key

definition keyboard_keymap :: "key list list" where
  "keyboard_keymap =
     [[KC_MEDIA_PREV_TRACK, KC_MEDIA_PLAY_PAUSE, KC_MEDIA_NEXT_TRACK,
       KC_BRIGHTNESS_DOWN, KC_NO, KC_BRIGHTNESS_UP,
       KC_LCTRL (KC_LALT KC_M), KC_LCTRL (KC_LALT KC_D), KC_LCTRL (KC_LALT KC_SLASH)]]"

text \<open>Indexing \<^verbatim>\<open>xs[i]\<close> as Python does it, from the end when \<open>i\<close> is below zero.\<close>

definition py_index :: "'a list \<Rightarrow> int \<Rightarrow> py_exn + 'a" where
  "py_index xs i =
     (if 0 \<le> i \<and> i < int (length xs) then Inr (xs ! nat i)
      else if i < 0 \<and> - int (length xs) \<le> i then Inr (xs ! nat (int (length xs) + i))
      else Inl IndexError)"

subsection \<open>DisplayController\<close>

text \<open>
  A label is the text handed to \<^verbatim>\<open>show_status\<close>: the formatted key \<^verbatim>\<open>f"{key}"\<close>
  (its characters are chosen by the key library) or a literal.
\<close>

datatype label = Formatted key | Literal string

datatype view = Clock | Status int int "label option"

record display_controller =
  display_enabled :: bool

text \<open>
  What \<^verbatim>\<open>show_time\<close> and \<^verbatim>\<open>show_status\<close> put on the display. The drawing and the
  transfer belong to libraries; their outcome is the argument \<open>draw_fault\<close>.
\<close>

definition show_time :: "display_controller \<Rightarrow> py_exn option \<Rightarrow> py_exn + view option" where
  "show_time d draw_fault =
     (if \<not> display_enabled d then Inr None
      else (case draw_fault of
              Some e \<Rightarrow> (if is_Exception e then Inr None else Inl e)
            | None \<Rightarrow> Inr (Some Clock)))"

definition show_status ::
  "display_controller \<Rightarrow> int \<Rightarrow> int \<Rightarrow> label option \<Rightarrow> py_exn option
     \<Rightarrow> py_exn + view option" where
  "show_status d layer encoder_val last_key draw_fault =
     (if \<not> display_enabled d then Inr None
      else (case draw_fault of
              Some e \<Rightarrow> (if is_Exception e then Inr None else Inl e)
            | None \<Rightarrow> Inr (Some (Status layer encoder_val last_key))))"

subsection \<open>The control loop\<close>

text \<open>
  The state of \<^verbatim>\<open>main\<close>: the module's scanner, encoder and keymap, the globals and the
  local \<^verbatim>\<open>last_time_update\<close>.
\<close>

record firmware =
  matrix_scanner :: matrix_scanner
  encoder :: encoder_controller
  keymap :: "key list list"
  current_layer :: int
  current_encoder_value :: int
  last_key_pressed :: "label option"
  last_time_update :: real

text \<open>
  What one pass of the loop observes: \<^verbatim>\<open>time.monotonic()\<close> at the top of the pass
  (seconds) and inside \<^verbatim>\<open>scan\<close> (milliseconds), and the hardware reads.
\<close>

record tick_env =
  time_check :: real
  scan_time_ms :: real
  matrix_raw :: raw_reader
  position_read :: "py_exn + int"
  switch_read :: "py_exn + bool"

text \<open>
  The calls the loop makes on the keyboard and on the display controller, in order.
  \<^verbatim>\<open>keyboard.write\<close> belongs to the key library and is taken to return; the display
  methods catch their own exceptions (see \<open>show_status\<close>). The \<^verbatim>\<open>print\<close> calls are
  left out.
\<close>

datatype effect = Write key | ShowTime | ShowStatus int int "label option"

definition firmware_init :: "encoder_controller \<Rightarrow> real \<Rightarrow> firmware" where
  "firmware_init enc t0 =
     \<lparr> matrix_scanner = MatrixScanner_init 3 3 DEBOUNCE_MS, encoder = enc,
       keymap = keyboard_keymap, current_layer = 0, current_encoder_value = 0,
       last_key_pressed = None, last_time_update = t0 \<rparr>"

text \<open>The loop over \<^verbatim>\<open>pressed_keys\<close>.\<close>

fun handle_keys ::
  "real \<Rightarrow> (nat \<times> nat) list \<Rightarrow> firmware \<times> effect list \<Rightarrow> py_exn + firmware \<times> effect list"
  where
  "handle_keys current_time_check [] acc = Inr acc"
| "handle_keys current_time_check ((row, col) # rest) acc =
     (let st = fst acc; out = snd acc; key_idx = row * MATRIX_COLS + col in
      if current_layer st < int (length (keymap st)) then
        (case py_index (keymap st) (current_layer st) of
           Inl e \<Rightarrow> Inl e
         | Inr layer \<Rightarrow>
             (case py_index layer (int key_idx) of
                Inl e \<Rightarrow> Inl e
              | Inr k \<Rightarrow>
                  handle_keys current_time_check rest
                    (st\<lparr> last_key_pressed := Some (Formatted k),
                        last_time_update := current_time_check - 0.8 \<rparr>,
                     out @ [Write k,
                            ShowStatus (current_layer st) (current_encoder_value st)
                              (Some (Formatted k))])))
      else handle_keys current_time_check rest acc)"

text \<open>The encoder part of the pass.\<close>

definition handle_encoder ::
  "tick_env \<Rightarrow> firmware \<times> effect list \<Rightarrow> py_exn + firmware \<times> effect list" where
  "handle_encoder env acc =
     (let st = fst acc; out = snd acc in
      if ENCODER_ENABLED then
        (case update (encoder st) (position_read env) (switch_read env) of
           Inl e \<Rightarrow> Inl e
         | Inr ((rotation, button_pressed), accesses, enc') \<Rightarrow>
             (let st1 = st\<lparr> encoder := enc' \<rparr>;
                  st2 =
                    (if rotation > 0
                     then st1\<lparr> current_encoder_value := current_encoder_value st1 + 1 \<rparr>
                     else if rotation < 0
                     then st1\<lparr> current_encoder_value := current_encoder_value st1 - 1 \<rparr>
                     else st1);
                  out2 =
                    (if rotation > 0 then out @ [Write KC_AUDIO_VOL_UP]
                     else if rotation < 0 then out @ [Write KC_AUDIO_VOL_DOWN]
                     else out)
              in
                if button_pressed then
                  Inr (st2\<lparr> last_time_update := time_check env - 0.8 \<rparr>,
                       out2 @ [Write KC_AUDIO_MUTE,
                               ShowStatus 0 (current_encoder_value st2) (Some (Literal ''MUTE''))])
                else Inr (st2, out2)))
      else Inr acc)"

text \<open>One pass of \<^verbatim>\<open>while True\<close>: the state afterwards and the calls made, in order.\<close>

definition tick :: "firmware \<Rightarrow> tick_env \<Rightarrow> py_exn + firmware \<times> effect list" where
  "tick st env =
     (let current_time_check = time_check env;
          acc0 =
            (if current_time_check - last_time_update st \<ge> 1.0
             then (st\<lparr> last_time_update := current_time_check \<rparr>, [ShowTime])
             else (st, []))
      in
        (case scan (matrix_scanner (fst acc0)) (matrix_raw env) (scan_time_ms env) of
           Inl e \<Rightarrow> Inl e
         | Inr (scanner', pressed_keys) \<Rightarrow>
             (case handle_keys current_time_check pressed_keys
                     ((fst acc0)\<lparr> matrix_scanner := scanner' \<rparr>, snd acc0) of
                Inl e \<Rightarrow> Inl e
              | Inr acc1 \<Rightarrow> handle_encoder env acc1)))"

text \<open>
  The loop never ends by itself. \<open>main_loop\<close> runs one pass per observation: it gives, for
  each completed pass, the state after it and the calls it made, and the exception that
  left \<^verbatim>\<open>main\<close>, if one did; no pass runs after that.
\<close>

fun main_loop ::
  "firmware \<Rightarrow> tick_env list \<Rightarrow> (firmware \<times> effect list) list \<times> py_exn option" where
  "main_loop st [] = ([], None)"
| "main_loop st (env # rest) =
     (case tick st env of
        Inl e \<Rightarrow> ([], Some e)
      | Inr (st', out) \<Rightarrow>
          (let r = main_loop st' rest in ((st', out) # fst r, snd r)))"

text \<open>
  The guard around \<^verbatim>\<open>main()\<close>: both handlers print and fall off the end of the module,
  so an exception that leaves \<^verbatim>\<open>main\<close> ends the program.
\<close>

definition guard_message :: "py_exn \<Rightarrow> string" where
  "guard_message e =
     (if e = KeyboardInterrupt then ''[INFO] Keyboard interrupted''
      else ''[ERROR] Unexpected error'')"

subsection \<open>Runs of the scanner\<close>

text \<open>The scanner before the \<open>k\<close>-th call of a run (calls are counted from 0).\<close>

definition state_before ::
  "matrix_scanner \<Rightarrow> (matrix_scanner \<times> (nat \<times> nat) list) list \<Rightarrow> nat \<Rightarrow> matrix_scanner" where
  "state_before s0 outs k = (s0 # map fst outs) ! k"

subsection \<open>Example states\<close>

text \<open>
  The scanner the module builds, \<^verbatim>\<open>MatrixScanner(ROW_PINS, COL_PINS, DEBOUNCE_MS)\<close> with
  three pins each, and the same scanner with cell (0, 0) pressed, respectively released,
  after a press accepted at time \<open>t\<close>.
\<close>

definition boot_scanner :: matrix_scanner where
  "boot_scanner = MatrixScanner_init 3 3 DEBOUNCE_MS"

definition key00_held :: "real \<Rightarrow> matrix_scanner" where
  "key00_held t =
     boot_scanner\<lparr> key_states := [[True, False, False], [False, False, False], [False, False, False]],
                   last_press_time := [[t, 0, 0], [0, 0, 0], [0, 0, 0]] \<rparr>"

definition key00_released :: "real \<Rightarrow> matrix_scanner" where
  "key00_released t =
     boot_scanner\<lparr> last_press_time := [[t, 0, 0], [0, 0, 0], [0, 0, 0]] \<rparr>"

text \<open>
  The encoder after a successful construction, the firmware at the start of the loop, and
  an observation in which every read succeeds: the time in seconds, the closed cells,
  the encoder position and the switch level (\<open>True\<close>: the button is up, the pin is pulled
  up).
\<close>

definition boot_encoder :: encoder_controller where
  "boot_encoder = \<lparr> enabled = True, last_position = 0, last_switch_state = True \<rparr>"

definition boot_firmware :: "real \<Rightarrow> firmware" where
  "boot_firmware t0 = firmware_init boot_encoder t0"

definition observe :: "real \<Rightarrow> (nat \<times> nat) list \<Rightarrow> int \<Rightarrow> bool \<Rightarrow> tick_env" where
  "observe t cells position switch =
     \<lparr> time_check = t, scan_time_ms = t * 1000, matrix_raw = closed_cells cells,
       position_read = Inr position, switch_read = Inr switch \<rparr>"

subsection \<open>Conditions on the loop\<close>

text \<open>
  \<open>loop_ready\<close>: the scanner has the shape of the configured matrix, and either the layer
  index is past the keymap or it is not negative and every layer has an entry for every
  cell. \<open>matrix_reads_ok\<close>: every pin read of the scan succeeds. \<open>no_interrupt\<close>: the
  encoder reads may raise, but not \<^verbatim>\<open>KeyboardInterrupt\<close>.
\<close>

definition loop_ready :: "firmware \<Rightarrow> bool" where
  "loop_ready st =
     (wf_scanner (matrix_scanner st) \<and>
      num_rows (matrix_scanner st) = MATRIX_ROWS \<and> num_cols (matrix_scanner st) = MATRIX_COLS \<and>
      (int (length (keymap st)) \<le> current_layer st \<or>
       0 \<le> current_layer st \<and>
       list_all (\<lambda>layer. MATRIX_ROWS * MATRIX_COLS \<le> length layer) (keymap st)))"

definition matrix_reads_ok :: "tick_env \<Rightarrow> bool" where
  "matrix_reads_ok env =
     list_all (\<lambda>r. list_all (\<lambda>c. case matrix_raw env r c of Inl e \<Rightarrow> False | Inr v \<Rightarrow> True)
                  [0..<MATRIX_COLS]) [0..<MATRIX_ROWS]"

definition no_interrupt :: "tick_env \<Rightarrow> bool" where
  "no_interrupt env =
     (position_read env \<noteq> Inl KeyboardInterrupt \<and> switch_read env \<noteq> Inl KeyboardInterrupt)"

text \<open>The booted firmware with a keymap of two layers, the second one active.\<close>

definition two_layer_firmware :: firmware where
  "two_layer_firmware =
     (boot_firmware 0)\<lparr> keymap := keyboard_keymap @ keyboard_keymap, current_layer := 1 \<rparr>"

subsection \<open>Facts about the tables\<close>

lemma dims_replicate: "dims (replicate R (replicate C v)) R C"
  by (simp add: dims_def list_all_iff)

lemma dims_set2: "dims m R C \<Longrightarrow> dims (set2 m r c v) R C"
proof (cases "r < length m")
  case True
  assume "dims m R C"
  with True show ?thesis
    by (auto simp: dims_def set2_def list_all_iff dest!: set_update_subset_insert [THEN subsetD])
next
  case False
  assume "dims m R C"
  with False show ?thesis
    by (simp add: set2_def list_update_beyond)
qed

lemma get2_set2:
  "dims m R C \<Longrightarrow> r < R \<Longrightarrow> c < C \<Longrightarrow>
   get2 (set2 m r c v) r' c' = (if r' = r \<and> c' = c then v else get2 m r' c')"
  by (auto simp: dims_def set2_def get2_def list_all_iff nth_list_update)

lemma wf_init: "wf_scanner (MatrixScanner_init R C d)"
  by (simp add: wf_scanner_def MatrixScanner_init_def dims_replicate)

subsection \<open>One cell of one scan\<close>

lemma debounce_cell_wf:
  "wf_scanner (fst acc) \<Longrightarrow> wf_scanner (fst (debounce_cell t r c v acc))"
  by (simp add: debounce_cell_def wf_scanner_def Let_def dims_set2)

lemma debounce_cell_frame:
  "num_rows (fst (debounce_cell t r c v acc)) = num_rows (fst acc) \<and>
   num_cols (fst (debounce_cell t r c v acc)) = num_cols (fst acc) \<and>
   debounce_ms (fst (debounce_cell t r c v acc)) = debounce_ms (fst acc)"
  by (simp add: debounce_cell_def Let_def)

lemma debounce_cell_other:
  assumes "wf_scanner (fst acc)" "r < num_rows (fst acc)" "c < num_cols (fst acc)"
    and "(r', c') \<noteq> (r, c)"
  shows "pressed (fst (debounce_cell t r c v acc)) r' c' = pressed (fst acc) r' c' \<and>
         stamp (fst (debounce_cell t r c v acc)) r' c' = stamp (fst acc) r' c'"
  using assms
  by (auto simp: debounce_cell_def Let_def pressed_def stamp_def wf_scanner_def get2_set2)

lemma debounce_cell_same:
  assumes "wf_scanner (fst acc)" "r < num_rows (fst acc)" "c < num_cols (fst acc)"
  shows "pressed (fst (debounce_cell t r c v acc)) r c =
           (if v \<noteq> pressed (fst acc) r c \<and> t - stamp (fst acc) r c > debounce_ms (fst acc)
            then v else pressed (fst acc) r c)"
    and "stamp (fst (debounce_cell t r c v acc)) r c =
           (if v \<and> \<not> pressed (fst acc) r c \<and> t - stamp (fst acc) r c > debounce_ms (fst acc)
            then t else stamp (fst acc) r c)"
    and "snd (debounce_cell t r c v acc) =
           snd acc @ (if v \<and> \<not> pressed (fst acc) r c \<and> t - stamp (fst acc) r c > debounce_ms (fst acc)
                      then [(r, c)] else [])"
  using assms
  by (auto simp: debounce_cell_def Let_def pressed_def stamp_def wf_scanner_def get2_set2)

subsection \<open>The loops of scan\<close>

lemma scan_rows_frame:
  "scan_rows raw t c rs acc = Inr acc' \<Longrightarrow> wf_scanner (fst acc) \<Longrightarrow>
   wf_scanner (fst acc') \<and> num_rows (fst acc') = num_rows (fst acc) \<and>
   num_cols (fst acc') = num_cols (fst acc) \<and> debounce_ms (fst acc') = debounce_ms (fst acc)"
proof (induction rs arbitrary: acc)
  case Nil
  then show ?case by simp
next
  case (Cons r rs)
  from Cons.prems(1) obtain v where v: "raw r c = Inr v"
    and rest: "scan_rows raw t c rs (debounce_cell t r c v acc) = Inr acc'"
    by (auto split: sum.splits)
  from Cons.IH [OF rest debounce_cell_wf [OF Cons.prems(2)]]
  show ?case by (simp add: debounce_cell_frame)
qed

lemma scan_rows_other:
  "scan_rows raw t c rs acc = Inr acc' \<Longrightarrow> wf_scanner (fst acc) \<Longrightarrow>
   \<forall>r\<in>set rs. r < num_rows (fst acc) \<Longrightarrow> c < num_cols (fst acc) \<Longrightarrow>
   \<not> (c' = c \<and> r' \<in> set rs) \<Longrightarrow>
   pressed (fst acc') r' c' = pressed (fst acc) r' c' \<and>
   stamp (fst acc') r' c' = stamp (fst acc) r' c'"
proof (induction rs arbitrary: acc)
  case Nil
  then show ?case by simp
next
  case (Cons r rs)
  from Cons.prems(1) obtain v where v: "raw r c = Inr v"
    and rest: "scan_rows raw t c rs (debounce_cell t r c v acc) = Inr acc'"
    by (auto split: sum.splits)
  let ?a = "debounce_cell t r c v acc"
  have wf1: "wf_scanner (fst ?a)" by (rule debounce_cell_wf [OF Cons.prems(2)])
  have ne: "(r', c') \<noteq> (r, c)" using Cons.prems(5) by auto
  have r: "r < num_rows (fst acc)" using Cons.prems(3) by simp
  have "pressed (fst acc') r' c' = pressed (fst ?a) r' c' \<and>
        stamp (fst acc') r' c' = stamp (fst ?a) r' c'"
    using Cons.IH [OF rest wf1] Cons.prems(3,4,5) by (simp add: debounce_cell_frame)
  with debounce_cell_other [OF Cons.prems(2) r Cons.prems(4) ne, of t v]
  show ?case by simp
qed

lemma scan_rows_done:
  "scan_rows raw t c rs acc = Inr acc' \<Longrightarrow> wf_scanner (fst acc) \<Longrightarrow>
   distinct rs \<Longrightarrow> \<forall>r\<in>set rs. r < num_rows (fst acc) \<Longrightarrow> c < num_cols (fst acc) \<Longrightarrow>
   r' \<in> set rs \<Longrightarrow>
   \<exists>v. raw r' c = Inr v \<and>
     pressed (fst acc') r' c =
       (if v \<noteq> pressed (fst acc) r' c \<and> t - stamp (fst acc) r' c > debounce_ms (fst acc)
        then v else pressed (fst acc) r' c) \<and>
     stamp (fst acc') r' c =
       (if v \<and> \<not> pressed (fst acc) r' c \<and> t - stamp (fst acc) r' c > debounce_ms (fst acc)
        then t else stamp (fst acc) r' c)"
proof (induction rs arbitrary: acc)
  case Nil
  then show ?case by simp
next
  case (Cons r rs)
  from Cons.prems(1) obtain v where v: "raw r c = Inr v"
    and rest: "scan_rows raw t c rs (debounce_cell t r c v acc) = Inr acc'"
    by (auto split: sum.splits)
  let ?a = "debounce_cell t r c v acc"
  have wf1: "wf_scanner (fst ?a)" by (rule debounce_cell_wf [OF Cons.prems(2)])
  have r: "r < num_rows (fst acc)" using Cons.prems(4) by simp
  have rs: "\<forall>x\<in>set rs. x < num_rows (fst ?a)" using Cons.prems(4) by (simp add: debounce_cell_frame)
  have c: "c < num_cols (fst ?a)" using Cons.prems(5) by (simp add: debounce_cell_frame)
  show ?case
  proof (cases "r' = r")
    case True
    then have "\<not> (c = c \<and> r' \<in> set rs)" using Cons.prems(3) by simp
    from scan_rows_other [OF rest wf1 rs c this]
    have "pressed (fst acc') r' c = pressed (fst ?a) r' c \<and>
          stamp (fst acc') r' c = stamp (fst ?a) r' c" .
    with True v debounce_cell_same(1,2) [OF Cons.prems(2) r Cons.prems(5), of t v]
    show ?thesis by simp
  next
    case False
    then have mem: "r' \<in> set rs" using Cons.prems(6) by simp
    have d: "distinct rs" using Cons.prems(3) by simp
    from Cons.IH [OF rest wf1 d rs c mem]
    obtain w where w: "raw r' c = Inr w"
      and p: "pressed (fst acc') r' c =
       (if w \<noteq> pressed (fst ?a) r' c \<and> t - stamp (fst ?a) r' c > debounce_ms (fst ?a)
        then w else pressed (fst ?a) r' c)"
      and s: "stamp (fst acc') r' c =
       (if w \<and> \<not> pressed (fst ?a) r' c \<and> t - stamp (fst ?a) r' c > debounce_ms (fst ?a)
        then t else stamp (fst ?a) r' c)"
      by blast
    have ne: "(r', c) \<noteq> (r, c)" using False by simp
    from debounce_cell_other [OF Cons.prems(2) r Cons.prems(5) ne, of t v]
    have "pressed (fst ?a) r' c = pressed (fst acc) r' c"
         "stamp (fst ?a) r' c = stamp (fst acc) r' c" by simp_all
    with w p s show ?thesis by (simp add: debounce_cell_frame)
  qed
qed

lemma scan_rows_keys:
  "scan_rows raw t c rs acc = Inr acc' \<Longrightarrow> wf_scanner (fst acc) \<Longrightarrow>
   distinct rs \<Longrightarrow> \<forall>r\<in>set rs. r < num_rows (fst acc) \<Longrightarrow> c < num_cols (fst acc) \<Longrightarrow>
   set (snd acc') = set (snd acc) \<union>
     {(r', c) | r'. r' \<in> set rs \<and> raw r' c = Inr True \<and> \<not> pressed (fst acc) r' c \<and>
        t - stamp (fst acc) r' c > debounce_ms (fst acc)}"
proof (induction rs arbitrary: acc)
  case Nil
  then show ?case by simp
next
  case (Cons r rs)
  from Cons.prems(1) obtain v where v: "raw r c = Inr v"
    and rest: "scan_rows raw t c rs (debounce_cell t r c v acc) = Inr acc'"
    by (auto split: sum.splits)
  let ?a = "debounce_cell t r c v acc"
  have wf1: "wf_scanner (fst ?a)" by (rule debounce_cell_wf [OF Cons.prems(2)])
  have r: "r < num_rows (fst acc)" using Cons.prems(4) by simp
  have rs: "\<forall>x\<in>set rs. x < num_rows (fst ?a)" using Cons.prems(4) by (simp add: debounce_cell_frame)
  have c: "c < num_cols (fst ?a)" using Cons.prems(5) by (simp add: debounce_cell_frame)
  have d: "distinct rs" using Cons.prems(3) by simp
  have same: "\<forall>x\<in>set rs. pressed (fst ?a) x c = pressed (fst acc) x c \<and>
        stamp (fst ?a) x c = stamp (fst acc) x c"
  proof
    fix x assume "x \<in> set rs"
    then have "(x, c) \<noteq> (r, c)" using Cons.prems(3) by auto
    from debounce_cell_other [OF Cons.prems(2) r Cons.prems(5) this]
    show "pressed (fst ?a) x c = pressed (fst acc) x c \<and>
        stamp (fst ?a) x c = stamp (fst acc) x c" .
  qed
  have "set (snd acc') = set (snd ?a) \<union>
     {(r', c) | r'. r' \<in> set rs \<and> raw r' c = Inr True \<and> \<not> pressed (fst ?a) r' c \<and>
        t - stamp (fst ?a) r' c > debounce_ms (fst ?a)}"
    by (rule Cons.IH [OF rest wf1 d rs c])
  also have "{(r', c) | r'. r' \<in> set rs \<and> raw r' c = Inr True \<and> \<not> pressed (fst ?a) r' c \<and>
        t - stamp (fst ?a) r' c > debounce_ms (fst ?a)} =
        {(r', c) | r'. r' \<in> set rs \<and> raw r' c = Inr True \<and> \<not> pressed (fst acc) r' c \<and>
        t - stamp (fst acc) r' c > debounce_ms (fst acc)}"
    using same by (auto simp: debounce_cell_frame)
  finally show ?case
    using v debounce_cell_same(3) [OF Cons.prems(2) r Cons.prems(5), of t v]
    by auto
qed

lemma scan_cols_frame:
  "scan_cols raw t cs acc = Inr acc' \<Longrightarrow> wf_scanner (fst acc) \<Longrightarrow>
   wf_scanner (fst acc') \<and> num_rows (fst acc') = num_rows (fst acc) \<and>
   num_cols (fst acc') = num_cols (fst acc) \<and> debounce_ms (fst acc') = debounce_ms (fst acc)"
proof (induction cs arbitrary: acc)
  case Nil
  then show ?case by simp
next
  case (Cons c cs)
  from Cons.prems(1) obtain a where
    row: "scan_rows raw t c [0..<num_rows (fst acc)] acc = Inr a"
    and rest: "scan_cols raw t cs a = Inr acc'"
    by (auto split: sum.splits)
  from scan_rows_frame [OF row Cons.prems(2)] Cons.IH [OF rest]
  show ?case by simp
qed

lemma scan_cols_other:
  "scan_cols raw t cs acc = Inr acc' \<Longrightarrow> wf_scanner (fst acc) \<Longrightarrow>
   \<forall>c\<in>set cs. c < num_cols (fst acc) \<Longrightarrow>
   \<not> (c' \<in> set cs \<and> r' < num_rows (fst acc)) \<Longrightarrow>
   pressed (fst acc') r' c' = pressed (fst acc) r' c' \<and>
   stamp (fst acc') r' c' = stamp (fst acc) r' c'"
proof (induction cs arbitrary: acc)
  case Nil
  then show ?case by simp
next
  case (Cons c cs)
  from Cons.prems(1) obtain a where
    row: "scan_rows raw t c [0..<num_rows (fst acc)] acc = Inr a"
    and rest: "scan_cols raw t cs a = Inr acc'"
    by (auto split: sum.splits)
  note fr = scan_rows_frame [OF row Cons.prems(2)]
  have "\<not> (c' = c \<and> r' \<in> set [0..<num_rows (fst acc)])" using Cons.prems(4) by auto
  from scan_rows_other [OF row Cons.prems(2) _ _ this]
  have one: "pressed (fst a) r' c' = pressed (fst acc) r' c' \<and>
             stamp (fst a) r' c' = stamp (fst acc) r' c'"
    using Cons.prems(3) by simp
  have wfa: "wf_scanner (fst a)" using fr by simp
  have cs: "\<forall>x\<in>set cs. x < num_cols (fst a)" using Cons.prems(3) fr by simp
  have "\<not> (c' \<in> set cs \<and> r' < num_rows (fst a))" using Cons.prems(4) fr by auto
  from Cons.IH [OF rest wfa cs this] one show ?case by simp
qed

lemma scan_cols_done:
  "scan_cols raw t cs acc = Inr acc' \<Longrightarrow> wf_scanner (fst acc) \<Longrightarrow>
   distinct cs \<Longrightarrow> \<forall>c\<in>set cs. c < num_cols (fst acc) \<Longrightarrow>
   c' \<in> set cs \<Longrightarrow> r' < num_rows (fst acc) \<Longrightarrow>
   \<exists>v. raw r' c' = Inr v \<and>
     pressed (fst acc') r' c' =
       (if v \<noteq> pressed (fst acc) r' c' \<and> t - stamp (fst acc) r' c' > debounce_ms (fst acc)
        then v else pressed (fst acc) r' c') \<and>
     stamp (fst acc') r' c' =
       (if v \<and> \<not> pressed (fst acc) r' c' \<and> t - stamp (fst acc) r' c' > debounce_ms (fst acc)
        then t else stamp (fst acc) r' c')"
proof (induction cs arbitrary: acc)
  case Nil
  then show ?case by simp
next
  case (Cons c cs)
  from Cons.prems(1) obtain a where
    row: "scan_rows raw t c [0..<num_rows (fst acc)] acc = Inr a"
    and rest: "scan_cols raw t cs a = Inr acc'"
    by (auto split: sum.splits)
  note fr = scan_rows_frame [OF row Cons.prems(2)]
  have cs: "\<forall>x\<in>set cs. x < num_cols (fst a)" using Cons.prems(4) fr by simp
  have c: "c < num_cols (fst acc)" using Cons.prems(4) by simp
  have d: "distinct cs" using Cons.prems(3) by simp
  show ?case
  proof (cases "c' = c")
    case True
    then have "\<not> (c' \<in> set cs \<and> r' < num_rows (fst a))" using Cons.prems(3) by simp
    from scan_cols_other [OF rest _ cs this] fr
    have later: "pressed (fst acc') r' c' = pressed (fst a) r' c' \<and>
          stamp (fst acc') r' c' = stamp (fst a) r' c'" by simp
    have "r' \<in> set [0..<num_rows (fst acc)]" using Cons.prems(6) by simp
    from scan_rows_done [OF row Cons.prems(2) _ _ c this]
    obtain v where "raw r' c = Inr v"
      "pressed (fst a) r' c =
       (if v \<noteq> pressed (fst acc) r' c \<and> t - stamp (fst acc) r' c > debounce_ms (fst acc)
        then v else pressed (fst acc) r' c)"
      "stamp (fst a) r' c =
       (if v \<and> \<not> pressed (fst acc) r' c \<and> t - stamp (fst acc) r' c > debounce_ms (fst acc)
        then t else stamp (fst acc) r' c)"
      by auto
    with later True show ?thesis by (intro exI [of _ v]) simp
  next
    case False
    then have mem: "c' \<in> set cs" using Cons.prems(5) by simp
    have "\<not> (c' = c \<and> r' \<in> set [0..<num_rows (fst acc)])" using False by simp
    from scan_rows_other [OF row Cons.prems(2) _ c this]
    have one: "pressed (fst a) r' c' = pressed (fst acc) r' c' \<and>
               stamp (fst a) r' c' = stamp (fst acc) r' c'" by simp
    have r': "r' < num_rows (fst a)" using Cons.prems(6) fr by simp
    have wfa: "wf_scanner (fst a)" using fr by simp
    from Cons.IH [OF rest wfa d cs mem r']
    obtain v where "raw r' c' = Inr v"
      "pressed (fst acc') r' c' =
       (if v \<noteq> pressed (fst a) r' c' \<and> t - stamp (fst a) r' c' > debounce_ms (fst a)
        then v else pressed (fst a) r' c')"
      "stamp (fst acc') r' c' =
       (if v \<and> \<not> pressed (fst a) r' c' \<and> t - stamp (fst a) r' c' > debounce_ms (fst a)
        then t else stamp (fst a) r' c')"
      by blast
    with fr one show ?thesis by (intro exI [of _ v]) simp
  qed
qed

lemma scan_cols_keys:
  "scan_cols raw t cs acc = Inr acc' \<Longrightarrow> wf_scanner (fst acc) \<Longrightarrow>
   distinct cs \<Longrightarrow> \<forall>c\<in>set cs. c < num_cols (fst acc) \<Longrightarrow>
   set (snd acc') = set (snd acc) \<union>
     {(r', c') | r' c'. c' \<in> set cs \<and> r' < num_rows (fst acc) \<and> raw r' c' = Inr True \<and>
        \<not> pressed (fst acc) r' c' \<and> t - stamp (fst acc) r' c' > debounce_ms (fst acc)}"
proof (induction cs arbitrary: acc)
  case Nil
  then show ?case by simp
next
  case (Cons c cs)
  from Cons.prems(1) obtain a where
    row: "scan_rows raw t c [0..<num_rows (fst acc)] acc = Inr a"
    and rest: "scan_cols raw t cs a = Inr acc'"
    by (auto split: sum.splits)
  note fr = scan_rows_frame [OF row Cons.prems(2)]
  have cs: "\<forall>x\<in>set cs. x < num_cols (fst a)" using Cons.prems(4) fr by simp
  have c: "c < num_cols (fst acc)" using Cons.prems(4) by simp
  have d: "distinct cs" using Cons.prems(3) by simp
  have same: "\<forall>x\<in>set cs. \<forall>r'. pressed (fst a) r' x = pressed (fst acc) r' x \<and>
        stamp (fst a) r' x = stamp (fst acc) r' x"
  proof (intro ballI allI)
    fix x r' assume "x \<in> set cs"
    then have "\<not> (x = c \<and> r' \<in> set [0..<num_rows (fst acc)])" using Cons.prems(3) by auto
    from scan_rows_other [OF row Cons.prems(2) _ c this]
    show "pressed (fst a) r' x = pressed (fst acc) r' x \<and>
        stamp (fst a) r' x = stamp (fst acc) r' x" by simp
  qed
  have k1: "set (snd a) = set (snd acc) \<union>
     {(r', c) | r'. r' \<in> set [0..<num_rows (fst acc)] \<and> raw r' c = Inr True \<and>
        \<not> pressed (fst acc) r' c \<and> t - stamp (fst acc) r' c > debounce_ms (fst acc)}"
    by (rule scan_rows_keys [OF row Cons.prems(2) _ _ c]) simp_all
  have k2: "set (snd acc') = set (snd a) \<union>
     {(r', c') | r' c'. c' \<in> set cs \<and> r' < num_rows (fst a) \<and> raw r' c' = Inr True \<and>
        \<not> pressed (fst a) r' c' \<and> t - stamp (fst a) r' c' > debounce_ms (fst a)}"
    by (rule Cons.IH [OF rest _ d cs]) (simp add: fr)
  have k3: "{(r', c') | r' c'. c' \<in> set cs \<and> r' < num_rows (fst a) \<and> raw r' c' = Inr True \<and>
        \<not> pressed (fst a) r' c' \<and> t - stamp (fst a) r' c' > debounce_ms (fst a)} =
      {(r', c') | r' c'. c' \<in> set cs \<and> r' < num_rows (fst acc) \<and> raw r' c' = Inr True \<and>
        \<not> pressed (fst acc) r' c' \<and> t - stamp (fst acc) r' c' > debounce_ms (fst acc)}"
    using same fr by auto
  show ?case unfolding k2 k3 k1 by auto
qed

lemma scan_frame:
  "scan s raw t = Inr (s', ks) \<Longrightarrow> wf_scanner s \<Longrightarrow>
   wf_scanner s' \<and> num_rows s' = num_rows s \<and> num_cols s' = num_cols s \<and>
   debounce_ms s' = debounce_ms s"
  using scan_cols_frame [of raw t "[0..<num_cols s]" "(s, [])" "(s', ks)"]
  by (simp add: scan_def)

lemma scan_cell:
  assumes "scan s raw t = Inr (s', ks)" "wf_scanner s" "r < num_rows s" "c < num_cols s"
  shows "\<exists>v. raw r c = Inr v \<and>
     pressed s' r c =
       (if v \<noteq> pressed s r c \<and> t - stamp s r c > debounce_ms s then v else pressed s r c) \<and>
     stamp s' r c =
       (if v \<and> \<not> pressed s r c \<and> t - stamp s r c > debounce_ms s then t else stamp s r c)"
proof -
  have sc: "scan_cols raw t [0..<num_cols s] (s, []) = Inr (s', ks)"
    using assms(1) by (simp add: scan_def)
  have p1: "wf_scanner (fst (s, []))" using assms(2) by simp
  have p2: "distinct [0..<num_cols s]" by simp
  have p3: "\<forall>x\<in>set [0..<num_cols s]. x < num_cols (fst (s, []))" by simp
  have p4: "c \<in> set [0..<num_cols s]" using assms(4) by simp
  have p5: "r < num_rows (fst (s, []))" using assms(3) by simp
  from scan_cols_done [OF sc p1 p2 p3 p4 p5]
  show ?thesis by (simp only: fst_conv)
qed

lemma scan_keys:
  "scan s raw t = Inr (s', ks) \<Longrightarrow> wf_scanner s \<Longrightarrow>
   set ks = {(r, c) | r c. c < num_cols s \<and> r < num_rows s \<and> raw r c = Inr True \<and>
        \<not> pressed s r c \<and> t - stamp s r c > debounce_ms s}"
  using scan_cols_keys [of raw t "[0..<num_cols s]" "(s, [])" "(s', ks)"]
  by (simp add: scan_def)

subsection \<open>Runs of scan calls\<close>

lemma state_before_0: "state_before s0 outs 0 = s0"
  by (simp add: state_before_def)

lemma state_before_Suc: "k < length outs \<Longrightarrow> state_before s0 outs (Suc k) = fst (outs ! k)"
  by (simp add: state_before_def)

lemma state_before_Cons: "state_before s0 (x # outs) (Suc k) = state_before (fst x) outs k"
  by (simp add: state_before_def)

lemma scans_length: "scans s0 ins = Inr outs \<Longrightarrow> length outs = length ins"
proof (induction ins arbitrary: s0 outs)
  case Nil
  then show ?case by simp
next
  case (Cons x ins)
  obtain t raw where x: "x = (t, raw)" by (cases x)
  from Cons.prems x obtain s' ks outs' where
    "scan s0 raw t = Inr (s', ks)" "scans s' ins = Inr outs'" "outs = (s', ks) # outs'"
    by (auto split: sum.splits)
  with Cons.IH show ?case by auto
qed

lemma scans_nth:
  "scans s0 ins = Inr outs \<Longrightarrow> k < length ins \<Longrightarrow>
   scan (state_before s0 outs k) (snd (ins ! k)) (fst (ins ! k)) = Inr (outs ! k)"
proof (induction ins arbitrary: s0 outs k)
  case Nil
  then show ?case by simp
next
  case (Cons x ins)
  obtain t raw where x: "x = (t, raw)" by (cases x)
  from Cons.prems(1) x obtain s' ks outs' where
    h: "scan s0 raw t = Inr (s', ks)" and r: "scans s' ins = Inr outs'"
    and o: "outs = (s', ks) # outs'"
    by (auto split: sum.splits)
  show ?case
  proof (cases k)
    case 0
    with h x o show ?thesis by (simp add: state_before_0)
  next
    case (Suc n)
    with Cons.prems(2) have "n < length ins" by simp
    from Cons.IH [OF r this] Suc o show ?thesis by (simp add: state_before_Cons)
  qed
qed

lemma scans_frame:
  "scans s0 ins = Inr outs \<Longrightarrow> wf_scanner s0 \<Longrightarrow> k \<le> length ins \<Longrightarrow>
   wf_scanner (state_before s0 outs k) \<and>
   num_rows (state_before s0 outs k) = num_rows s0 \<and>
   num_cols (state_before s0 outs k) = num_cols s0 \<and>
   debounce_ms (state_before s0 outs k) = debounce_ms s0"
proof (induction ins arbitrary: s0 outs k)
  case Nil
  then show ?case by (simp add: state_before_0)
next
  case (Cons x ins)
  obtain t raw where x: "x = (t, raw)" by (cases x)
  from Cons.prems(1) x obtain s' ks outs' where
    h: "scan s0 raw t = Inr (s', ks)" and r: "scans s' ins = Inr outs'"
    and o: "outs = (s', ks) # outs'"
    by (auto split: sum.splits)
  note fr = scan_frame [OF h Cons.prems(2)]
  show ?case
  proof (cases k)
    case 0
    with Cons.prems(2) show ?thesis by (simp add: state_before_0)
  next
    case (Suc n)
    with Cons.prems(3) have n: "n \<le> length ins" by simp
    have "wf_scanner s'" using fr by simp
    from Cons.IH [OF r this n] fr Suc o show ?thesis by (simp add: state_before_Cons)
  qed
qed

text \<open>One scan call inside a run, seen at one cell.\<close>

lemma scans_cell:
  assumes "scans s0 ins = Inr outs" "wf_scanner s0" "r < num_rows s0" "c < num_cols s0"
    "k < length ins"
  shows "\<exists>v. snd (ins ! k) r c = Inr v \<and>
     pressed (fst (outs ! k)) r c =
       (if v \<noteq> pressed (state_before s0 outs k) r c \<and>
           fst (ins ! k) - stamp (state_before s0 outs k) r c > debounce_ms s0
        then v else pressed (state_before s0 outs k) r c) \<and>
     stamp (fst (outs ! k)) r c =
       (if v \<and> \<not> pressed (state_before s0 outs k) r c \<and>
           fst (ins ! k) - stamp (state_before s0 outs k) r c > debounce_ms s0
        then fst (ins ! k) else stamp (state_before s0 outs k) r c)"
proof -
  have k: "k \<le> length ins" using assms(5) by simp
  note fr = scans_frame [OF assms(1,2) k]
  have sc: "scan (state_before s0 outs k) (snd (ins ! k)) (fst (ins ! k)) =
              Inr (fst (outs ! k), snd (outs ! k))"
    using scans_nth [OF assms(1,5)] by simp
  have wf: "wf_scanner (state_before s0 outs k)" using fr by simp
  have r: "r < num_rows (state_before s0 outs k)" using fr assms(3) by simp
  have c: "c < num_cols (state_before s0 outs k)" using fr assms(4) by simp
  from scan_cell [OF sc wf r c] fr show ?thesis by simp
qed

lemma stamp_kept:
  assumes run: "scans s0 ins = Inr outs" and wf: "wf_scanner s0"
    and r: "r < num_rows s0" and c: "c < num_cols s0"
    and i: "\<not> pressed (state_before s0 outs i) r c" "pressed (fst (outs ! i)) r c"
    and none: "\<forall>k. i < k \<and> k \<le> n \<longrightarrow>
        \<not> (\<not> pressed (state_before s0 outs k) r c \<and> pressed (fst (outs ! k)) r c)"
    and n: "i \<le> n" "n < length ins"
  shows "stamp (fst (outs ! n)) r c = fst (ins ! i)"
  using none n
proof (induction n)
  case 0
  then have "i = 0" by simp
  with scans_cell [OF run wf r c, of 0] i "0.prems"(3) show ?case
    by (auto split: if_splits)
next
  case (Suc n)
  show ?case
  proof (cases "i = Suc n")
    case True
    with scans_cell [OF run wf r c, of i] i Suc.prems(3) show ?thesis
      by (auto split: if_splits)
  next
    case False
    with Suc.prems have le: "i \<le> n" and lt: "n < length ins" by simp_all
    have "\<forall>k. i < k \<and> k \<le> n \<longrightarrow>
        \<not> (\<not> pressed (state_before s0 outs k) r c \<and> pressed (fst (outs ! k)) r c)"
      using Suc.prems(1) by auto
    from Suc.IH [OF this le lt] have old: "stamp (fst (outs ! n)) r c = fst (ins ! i)" .
    have len: "n < length outs" using lt scans_length [OF run] by simp
    have nopress: "\<not> (\<not> pressed (state_before s0 outs (Suc n)) r c \<and>
                       pressed (fst (outs ! Suc n)) r c)"
      using Suc.prems(1) le by auto
    from scans_cell [OF run wf r c Suc.prems(3)] nopress old
    show ?thesis
      by (auto simp: state_before_Suc [OF len] split: if_splits)
  qed
qed

lemmas scan_eval = scan_def debounce_cell_def get2_def set2_def closed_cells_def
  MatrixScanner_init_def boot_scanner_def key00_held_def key00_released_def DEBOUNCE_MS_def
  Let_def numeral_3_eq_3

lemma wf_boot: "wf_scanner boot_scanner"
  by (simp add: boot_scanner_def wf_init)

lemma scan_boot_press:
  "scan boot_scanner (closed_cells [(0, 0)]) 100 = Inr (key00_held 100, [(0, 0)])"
  by (simp add: scan_eval)

lemma scan_held_release:
  "scan (key00_held 100) (closed_cells []) 121 = Inr (key00_released 100, [])"
  by (simp add: scan_eval)

lemma scan_released_press:
  "scan (key00_released 100) (closed_cells [(0, 0)]) 122 = Inr (key00_held 122, [(0, 0)])"
  by (simp add: scan_eval)

lemma pressed_examples:
  "\<not> pressed boot_scanner 0 0" "pressed (key00_held t) 0 0" "\<not> pressed (key00_released t) 0 0"
  "stamp (key00_held t) 0 0 = t" "stamp (key00_released t) 0 0 = t"
  by (simp_all add: pressed_def stamp_def scan_eval)

subsection \<open>The encoder\<close>

lemma update_disabled: "\<not> enabled s \<Longrightarrow> update s p w = Inr ((0, False), [], s)"
  by (simp add: update_def)

lemma update_reads_ok:
  "enabled s \<Longrightarrow>
   update s (Inr p) (Inr w) =
     Inr ((sgn (p - last_position s), \<not> w \<and> last_switch_state s),
          [ReadPosition, ReadSwitch],
          s\<lparr> last_position := p, last_switch_state := w \<rparr>)"
  by (cases "p = last_position s") (auto simp: update_def Let_def sgn_if)

lemma update_switch_fault:
  "enabled s \<Longrightarrow> is_Exception e \<Longrightarrow>
   update s (Inr p) (Inl e) =
     Inr ((sgn (p - last_position s), False), [ReadPosition, ReadSwitch],
          s\<lparr> last_position := p \<rparr>)"
  by (cases "p = last_position s") (auto simp: update_def Let_def sgn_if)

lemma update_position_fault:
  "enabled s \<Longrightarrow> is_Exception e \<Longrightarrow>
   update s (Inl e) w = Inr ((0, False), [ReadPosition], s)"
  by (simp add: update_def)

lemma updates_disabled:
  "\<not> enabled s \<Longrightarrow> updates s polls = Inr (replicate (length polls) (0, False), [], s)"
proof (induction polls)
  case Nil
  then show ?case by simp
next
  case (Cons x polls)
  obtain p w where "x = (p, w)" by (cases x)
  with Cons show ?case by (simp add: update_disabled)
qed

lemma updates_button_held:
  "enabled s \<Longrightarrow> \<not> last_switch_state s \<Longrightarrow>
   \<exists>rots acc s'. length rots = length ps \<and>
     updates s (map (\<lambda>p. (Inr p, Inr False)) ps) =
       Inr (zip rots (replicate (length ps) False), acc, s')"
proof (induction ps arbitrary: s)
  case Nil
  then show ?case by simp
next
  case (Cons p ps)
  let ?s1 = "s\<lparr> last_position := p, last_switch_state := False \<rparr>"
  have "enabled ?s1" "\<not> last_switch_state ?s1" using Cons.prems by simp_all
  from Cons.IH [OF this] obtain rots acc s' where
    l: "length rots = length ps" and
    u: "updates ?s1 (map (\<lambda>p. (Inr p, Inr False)) ps) =
          Inr (zip rots (replicate (length ps) False), acc, s')"
    by blast
  have "length (sgn (p - last_position s) # rots) = length (p # ps)" using l by simp
  moreover have "updates s (map (\<lambda>p. (Inr p, Inr False)) (p # ps)) =
      Inr (zip (sgn (p - last_position s) # rots) (replicate (length (p # ps)) False),
           [ReadPosition, ReadSwitch] @ acc, s')"
    using Cons.prems u by (simp add: update_reads_ok)
  ultimately show ?case by blast
qed

subsection \<open>The control loop on examples\<close>

lemma scan_boot_quiet: "scan boot_scanner (closed_cells []) t = Inr (boot_scanner, [])"
  by (simp add: scan_eval)

lemma handle_encoder_reads_ok:
  "enabled (encoder st) \<Longrightarrow> position_read env = Inr p \<Longrightarrow> switch_read env = Inr w \<Longrightarrow>
   handle_encoder env (st, out) =
     (let d = sgn (p - last_position (encoder st));
          st2 = st\<lparr> encoder := (encoder st)\<lparr> last_position := p, last_switch_state := w \<rparr>,
                     current_encoder_value := current_encoder_value st + d \<rparr>;
          out2 = out @ (if d > 0 then [Write KC_AUDIO_VOL_UP]
                        else if d < 0 then [Write KC_AUDIO_VOL_DOWN] else [])
      in if \<not> w \<and> last_switch_state (encoder st)
         then Inr (st2\<lparr> last_time_update := time_check env - 0.8 \<rparr>,
                   out2 @ [Write KC_AUDIO_MUTE,
                           ShowStatus 0 (current_encoder_value st2) (Some (Literal ''MUTE''))])
         else Inr (st2, out2))"
  by (auto simp: handle_encoder_def ENCODER_ENABLED_def update_reads_ok Let_def sgn_if)

lemmas loop_eval = tick_def observe_def boot_firmware_def firmware_init_def
  boot_scanner_def [symmetric] boot_encoder_def Let_def

lemma scenario2:
  "map (current_encoder_value \<circ> fst)
     (fst (main_loop (boot_firmware 0)
        [observe 0.1 [] 0 True, observe 0.2 [] 1 True, observe 0.3 [] 1 True,
         observe 0.4 [] 2 True])) = [0, 1, 1, 2]"
  by (simp add: loop_eval scan_boot_quiet handle_encoder_def ENCODER_ENABLED_def update_def)

subsection \<open>Keys, encoder and passes of the loop\<close>

lemma py_index_nat: "n < length xs \<Longrightarrow> py_index xs (int n) = Inr (xs ! n)"
  by (simp add: py_index_def)

lemma handle_keys_no_layer:
  "int (length (keymap st)) \<le> current_layer st \<Longrightarrow>
   handle_keys t keys (st, out) = Inr (st, out)"
proof (induction keys)
  case Nil
  then show ?case by simp
next
  case (Cons x keys)
  obtain row col where "x = (row, col)" by (cases x)
  with Cons show ?case by (simp add: Let_def)
qed

text \<open>What one pressed key adds to the calls when the layer exists.\<close>

lemma handle_keys_layer:
  assumes "0 \<le> current_layer st" "current_layer st < int (length (keymap st))"
    and "\<forall>layer\<in>set (keymap st). MATRIX_ROWS * MATRIX_COLS \<le> length layer"
    and "\<forall>(row, col)\<in>set keys. row < MATRIX_ROWS \<and> col < MATRIX_COLS"
  shows "\<exists>st' ks. handle_keys t keys (st, out) =
            Inr (st', out @ concat (map (\<lambda>k. [Write k,
                   ShowStatus (current_layer st) (current_encoder_value st)
                     (Some (Formatted k))]) ks)) \<and>
          length ks = length keys \<and>
          matrix_scanner st' = matrix_scanner st \<and> encoder st' = encoder st \<and>
          keymap st' = keymap st \<and> current_layer st' = current_layer st \<and>
          current_encoder_value st' = current_encoder_value st"
  using assms
proof (induction keys arbitrary: st out)
  case Nil
  then show ?case by simp
next
  case (Cons x keys)
  obtain row col where x: "x = (row, col)" by (cases x)
  let ?layer = "keymap st ! nat (current_layer st)"
  have lay: "py_index (keymap st) (current_layer st) = Inr ?layer"
    using Cons.prems(1,2) by (simp add: py_index_def)
  have "?layer \<in> set (keymap st)" using Cons.prems(1,2) by simp
  with Cons.prems(3) have len: "MATRIX_ROWS * MATRIX_COLS \<le> length ?layer" by blast
  have rc: "row < MATRIX_ROWS" "col < MATRIX_COLS" using Cons.prems(4) x by auto
  have "row * MATRIX_COLS + col < MATRIX_ROWS * MATRIX_COLS"
    using rc by (simp add: MATRIX_ROWS_def MATRIX_COLS_def)
  with len have idx: "row * MATRIX_COLS + col < length ?layer" by simp
  let ?k = "?layer ! (row * MATRIX_COLS + col)"
  have key: "py_index ?layer (int (row * MATRIX_COLS + col)) = Inr ?k"
    using idx by (rule py_index_nat)
  let ?st1 = "st\<lparr> last_key_pressed := Some (Formatted ?k),
                    last_time_update := t - 0.8 \<rparr>"
  let ?out1 = "out @ [Write ?k, ShowStatus (current_layer st) (current_encoder_value st)
                  (Some (Formatted ?k))]"
  have step: "handle_keys t (x # keys) (st, out) = handle_keys t keys (?st1, ?out1)"
    using x lay key Cons.prems(2) by (simp add: Let_def)
  have p: "0 \<le> current_layer ?st1" "current_layer ?st1 < int (length (keymap ?st1))"
    "\<forall>layer\<in>set (keymap ?st1). MATRIX_ROWS * MATRIX_COLS \<le> length layer"
    "\<forall>(row, col)\<in>set keys. row < MATRIX_ROWS \<and> col < MATRIX_COLS"
    using Cons.prems by simp_all
  from Cons.IH [OF p, of ?out1] obtain st' ks where
    h: "handle_keys t keys (?st1, ?out1) =
            Inr (st', ?out1 @ concat (map (\<lambda>k. [Write k,
                   ShowStatus (current_layer ?st1) (current_encoder_value ?st1)
                     (Some (Formatted k))]) ks))"
    and l: "length ks = length keys"
    and f: "matrix_scanner st' = matrix_scanner ?st1" "encoder st' = encoder ?st1"
          "keymap st' = keymap ?st1" "current_layer st' = current_layer ?st1"
          "current_encoder_value st' = current_encoder_value ?st1"
    by blast
  have "handle_keys t (x # keys) (st, out) =
            Inr (st', out @ concat (map (\<lambda>k. [Write k,
                   ShowStatus (current_layer st) (current_encoder_value st)
                     (Some (Formatted k))]) (?k # ks)))"
    using step h by simp
  moreover have "length (?k # ks) = length (x # keys)" using l by simp
  ultimately show ?case using f by (intro exI [of _ st'] exI [of _ "?k # ks"]) simp
qed

lemma handle_encoder_click:
  assumes "update (encoder st) (position_read env) (switch_read env) =
             Inr ((rotation, True), acc, enc')"
  shows "\<exists>st' out'. handle_encoder env (st, out) =
            Inr (st', out' @ [Write KC_AUDIO_MUTE,
                  ShowStatus 0 (current_encoder_value st') (Some (Literal ''MUTE''))]) \<and>
          current_layer st' = current_layer st"
  using assms by (simp add: handle_encoder_def ENCODER_ENABLED_def Let_def)

lemma scan_boot_press_at:
  "20 < t \<Longrightarrow> scan boot_scanner (closed_cells [(0, 0)]) t = Inr (key00_held t, [(0, 0)])"
  by (simp add: scan_eval)

lemma scan_held_still:
  "scan (key00_held t0) (closed_cells [(0, 0)]) t = Inr (key00_held t0, [])"
  by (simp add: scan_eval)

lemma scan_rows_ok:
  "\<forall>r\<in>set rs. \<exists>v. raw r c = Inr v \<Longrightarrow> \<exists>acc'. scan_rows raw t c rs acc = Inr acc'"
proof (induction rs arbitrary: acc)
  case Nil
  then show ?case by simp
next
  case (Cons r rs)
  then obtain v where "raw r c = Inr v" by auto
  with Cons show ?case by simp
qed

lemma scan_cols_ok:
  "wf_scanner (fst acc) \<Longrightarrow>
   \<forall>c\<in>set cs. \<forall>r<num_rows (fst acc). \<exists>v. raw r c = Inr v \<Longrightarrow>
   \<exists>acc'. scan_cols raw t cs acc = Inr acc'"
proof (induction cs arbitrary: acc)
  case Nil
  then show ?case by simp
next
  case (Cons c cs)
  have "\<forall>r\<in>set [0..<num_rows (fst acc)]. \<exists>v. raw r c = Inr v" using Cons.prems(2) by simp
  from scan_rows_ok [of "[0..<num_rows (fst acc)]" raw c t acc, OF this] obtain a where
    a: "scan_rows raw t c [0..<num_rows (fst acc)] acc = Inr a" by blast
  note fr = scan_rows_frame [OF a Cons.prems(1)]
  have "\<forall>c\<in>set cs. \<forall>r<num_rows (fst a). \<exists>v. raw r c = Inr v"
    using Cons.prems(2) fr by simp
  from Cons.IH [OF _ this] fr a show ?case by simp
qed

lemma scan_ok:
  "wf_scanner s \<Longrightarrow> \<forall>r<num_rows s. \<forall>c<num_cols s. \<exists>v. raw r c = Inr v \<Longrightarrow>
   \<exists>s' ks. scan s raw t = Inr (s', ks)"
  using scan_cols_ok [of "(s, [])" "[0..<num_cols s]" raw t]
  by (auto simp: scan_def)

lemma scan_rows_fail:
  "r \<in> set rs \<Longrightarrow> raw r c = Inl e \<Longrightarrow> \<exists>e'. scan_rows raw t c rs acc = Inl e'"
proof (induction rs arbitrary: acc)
  case Nil
  then show ?case by simp
next
  case (Cons x rs)
  show ?case
  proof (cases "raw x c")
    case (Inl e')
    then show ?thesis by simp
  next
    case (Inr b)
    with Cons.prems have "r \<in> set rs" by auto
    from Cons.IH [OF this Cons.prems(2)] Inr show ?thesis by simp
  qed
qed

lemma scan_cols_fail:
  "wf_scanner (fst acc) \<Longrightarrow> c \<in> set cs \<Longrightarrow> r < num_rows (fst acc) \<Longrightarrow> raw r c = Inl e \<Longrightarrow>
   \<exists>e'. scan_cols raw t cs acc = Inl e'"
proof (induction cs arbitrary: acc)
  case Nil
  then show ?case by simp
next
  case (Cons x cs)
  show ?case
  proof (cases "scan_rows raw t x [0..<num_rows (fst acc)] acc")
    case (Inl e')
    then show ?thesis by simp
  next
    case (Inr a)
    note fr = scan_rows_frame [OF Inr Cons.prems(1)]
    have "c \<noteq> x"
    proof
      assume "c = x"
      with Cons.prems(3,4) scan_rows_fail [of r "[0..<num_rows (fst acc)]" raw x e t acc] Inr
      show False by simp
    qed
    with Cons.prems(2) have mem: "c \<in> set cs" by simp
    have r: "r < num_rows (fst a)" using fr Cons.prems(3) by simp
    from Cons.IH [OF _ mem r Cons.prems(4)] fr Inr show ?thesis by simp
  qed
qed

lemma scan_fail:
  "wf_scanner s \<Longrightarrow> r < num_rows s \<Longrightarrow> c < num_cols s \<Longrightarrow> raw r c = Inl e \<Longrightarrow>
   \<exists>e'. scan s raw t = Inl e'"
  using scan_cols_fail [of "(s, [])" c "[0..<num_cols s]" r raw e t]
  by (simp add: scan_def)

lemma update_total:
  "p \<noteq> Inl KeyboardInterrupt \<Longrightarrow> w \<noteq> Inl KeyboardInterrupt \<Longrightarrow>
   \<exists>res acc s'. update s p w = Inr (res, acc, s')"
  by (auto simp: update_def is_Exception_def Let_def split: sum.splits)

lemma handle_encoder_ok:
  assumes "no_interrupt env"
  shows "\<exists>st' out'. handle_encoder env (st, out) = Inr (st', out') \<and>
           matrix_scanner st' = matrix_scanner st \<and> keymap st' = keymap st \<and>
           current_layer st' = current_layer st"
proof -
  from assms update_total [of "position_read env" "switch_read env" "encoder st"]
  obtain rot b acc s' where
    "update (encoder st) (position_read env) (switch_read env) = Inr ((rot, b), acc, s')"
    by (auto simp: no_interrupt_def)
  then show ?thesis
    by (simp add: handle_encoder_def ENCODER_ENABLED_def Let_def)
qed

lemma handle_encoder_position_fault:
  "position_read env = Inl e \<Longrightarrow> is_Exception e \<Longrightarrow>
   handle_encoder env (st, out) = Inr (st, out)"
  by (simp add: handle_encoder_def ENCODER_ENABLED_def update_def Let_def)

lemma handle_keys_ok:
  assumes "int (length (keymap st)) \<le> current_layer st \<or>
       0 \<le> current_layer st \<and>
       list_all (\<lambda>layer. MATRIX_ROWS * MATRIX_COLS \<le> length layer) (keymap st)"
    and "\<forall>(row, col)\<in>set keys. row < MATRIX_ROWS \<and> col < MATRIX_COLS"
  shows "\<exists>st' out'. handle_keys t keys (st, out) = Inr (st', out') \<and>
          matrix_scanner st' = matrix_scanner st \<and> encoder st' = encoder st \<and>
          keymap st' = keymap st \<and> current_layer st' = current_layer st"
proof (cases "int (length (keymap st)) \<le> current_layer st")
  case True
  then show ?thesis by (simp add: handle_keys_no_layer)
next
  case False
  with assms(1) have a: "0 \<le> current_layer st" "current_layer st < int (length (keymap st))"
    "\<forall>layer\<in>set (keymap st). MATRIX_ROWS * MATRIX_COLS \<le> length layer"
    by (auto simp: list_all_iff)
  from handle_keys_layer [OF a assms(2), of t out] show ?thesis by blast
qed

lemma tick_ok:
  assumes "loop_ready st" "matrix_reads_ok env" "no_interrupt env"
  shows "\<exists>st' out. tick st env = Inr (st', out) \<and> loop_ready st'"
proof -
  let ?st0 = "if time_check env - last_time_update st \<ge> 1
              then st\<lparr> last_time_update := time_check env \<rparr> else st"
  let ?out0 = "if time_check env - last_time_update st \<ge> 1 then [ShowTime] else []"
  let ?sc = "matrix_scanner st"
  have wf: "wf_scanner ?sc" and R: "num_rows ?sc = MATRIX_ROWS" and C: "num_cols ?sc = MATRIX_COLS"
    using assms(1) by (simp_all add: loop_ready_def)
  have "\<exists>v. matrix_raw env r c = Inr v" if "r < MATRIX_ROWS" "c < MATRIX_COLS" for r c
  proof -
    from assms(2) that
    have "case matrix_raw env r c of Inl e \<Rightarrow> False | Inr v \<Rightarrow> True"
      by (simp add: matrix_reads_ok_def list_all_iff)
    then show ?thesis by (cases "matrix_raw env r c") simp_all
  qed
  then have "\<forall>r<num_rows ?sc. \<forall>c<num_cols ?sc. \<exists>v. matrix_raw env r c = Inr v"
    using R C by simp
  from scan_ok [OF wf this] obtain s' ks where
    sc: "scan ?sc (matrix_raw env) (scan_time_ms env) = Inr (s', ks)" by blast
  note fr = scan_frame [OF sc wf]
  have keys: "\<forall>(row, col)\<in>set ks. row < MATRIX_ROWS \<and> col < MATRIX_COLS"
    using scan_keys [OF sc wf] R C by auto
  let ?st1 = "?st0\<lparr> matrix_scanner := s' \<rparr>"
  have lay: "int (length (keymap ?st1)) \<le> current_layer ?st1 \<or>
       0 \<le> current_layer ?st1 \<and>
       list_all (\<lambda>layer. MATRIX_ROWS * MATRIX_COLS \<le> length layer) (keymap ?st1)"
    using assms(1) by (simp add: loop_ready_def)
  from handle_keys_ok [OF lay keys, of "time_check env" ?out0] obtain st2 out2 where
    hk: "handle_keys (time_check env) ks (?st1, ?out0) = Inr (st2, out2)"
    and f2: "matrix_scanner st2 = matrix_scanner ?st1" "keymap st2 = keymap ?st1"
            "current_layer st2 = current_layer ?st1"
    by blast
  from handle_encoder_ok [OF assms(3), of st2 out2] obtain st3 out3 where
    he: "handle_encoder env (st2, out2) = Inr (st3, out3)"
    and f3: "matrix_scanner st3 = matrix_scanner st2" "keymap st3 = keymap st2"
            "current_layer st3 = current_layer st2"
    by blast
  have "tick st env = Inr (st3, out3)"
    using sc hk he by (simp add: tick_def Let_def split: if_splits)
  moreover have "loop_ready st3"
    using assms(1) f2 f3 fr R C by (simp add: loop_ready_def split: if_splits)
  ultimately show ?thesis by blast
qed

lemma main_loop_ok:
  "loop_ready st \<Longrightarrow> \<forall>env\<in>set envs. matrix_reads_ok env \<and> no_interrupt env \<Longrightarrow>
   snd (main_loop st envs) = None \<and> length (fst (main_loop st envs)) = length envs"
proof (induction envs arbitrary: st)
  case Nil
  then show ?case by simp
next
  case (Cons env envs)
  from tick_ok [of st env] Cons.prems obtain st' out where
    t: "tick st env = Inr (st', out)" and r: "loop_ready st'" by auto
  from Cons.IH [OF r] Cons.prems(2) t show ?case by (simp add: Let_def)
qed

lemma tick_matrix_fault:
  assumes "wf_scanner (matrix_scanner st)" "r < num_rows (matrix_scanner st)"
    "c < num_cols (matrix_scanner st)" "matrix_raw env r c = Inl e"
  shows "\<exists>e'. tick st env = Inl e' \<and> main_loop st (env # rest) = ([], Some e')"
proof -
  from scan_fail [of "matrix_scanner st" r c "matrix_raw env" e "scan_time_ms env", OF assms]
  obtain e' where
    "scan (matrix_scanner st) (matrix_raw env) (scan_time_ms env) = Inl e'" by blast
  then have "tick st env = Inl e'" by (simp add: tick_def Let_def)
  then show ?thesis by simp
qed

lemma boot_firmware_scanner: "matrix_scanner (boot_firmware t0) = boot_scanner"
  by (simp add: boot_firmware_def firmware_init_def boot_scanner_def)

lemma boot_scanner_size: "num_rows boot_scanner = 3" "num_cols boot_scanner = 3"
  by (simp_all add: boot_scanner_def MatrixScanner_init_def)

lemma loop_ready_boot:
  "0 \<le> n \<Longrightarrow> loop_ready ((boot_firmware t0)\<lparr> current_layer := n \<rparr>)"
  by (simp add: loop_ready_def boot_firmware_scanner wf_boot boot_scanner_size
      MATRIX_ROWS_def MATRIX_COLS_def)
     (simp add: boot_firmware_def firmware_init_def keyboard_keymap_def)

section \<open>The claims\<close>

text \<open>
  C1 (as the code has it). In every run of scan calls, a transition of a cell (a press or
  a release) is accepted only when more than the debounce window has passed since the
  latest accepted press of that cell: if call \<open>i\<close> accepts a press, no call strictly between
  \<open>i\<close> and \<open>j\<close> accepts a press, and call \<open>j\<close> flips the cell, then the two calls are more
  than \<open>debounce_ms\<close> apart.
\<close>

theorem flip_waits_for_press_window:
  assumes run: "scans s0 ins = Inr outs" and wf: "wf_scanner s0"
    and r: "r < num_rows s0" and c: "c < num_cols s0"
    and ij: "i < j" "j < length ins"
    and press_i: "\<not> pressed (state_before s0 outs i) r c" "pressed (fst (outs ! i)) r c"
    and none: "\<forall>k. i < k \<and> k < j \<longrightarrow>
        \<not> (\<not> pressed (state_before s0 outs k) r c \<and> pressed (fst (outs ! k)) r c)"
    and flip_j: "pressed (fst (outs ! j)) r c \<noteq> pressed (state_before s0 outs j) r c"
  shows "fst (ins ! j) - fst (ins ! i) > debounce_ms s0"
proof -
  obtain n where n: "j = Suc n" using ij(1) by (cases j) simp_all
  have le: "i \<le> n" and lt: "n < length ins" using ij n by simp_all
  have "\<forall>k. i < k \<and> k \<le> n \<longrightarrow>
        \<not> (\<not> pressed (state_before s0 outs k) r c \<and> pressed (fst (outs ! k)) r c)"
    using none n by auto
  from stamp_kept [OF run wf r c press_i this le lt]
  have st: "stamp (fst (outs ! n)) r c = fst (ins ! i)" .
  have len: "n < length outs" using lt scans_length [OF run] by simp
  from scans_cell [OF run wf r c ij(2)] flip_j st n
  show ?thesis
    by (auto simp: state_before_Suc [OF len] split: if_splits)
qed

theorem flip_waits_for_press_window_witness:
  "scans boot_scanner [(100, closed_cells [(0, 0)]), (121, closed_cells [])] =
     Inr [(key00_held 100, [(0, 0)]), (key00_released 100, [])] \<and>
   wf_scanner boot_scanner \<and>
   \<not> pressed boot_scanner 0 0 \<and> pressed (key00_held 100) 0 0 \<and>
   \<not> pressed (key00_released 100) 0 0 \<and>
   debounce_ms boot_scanner < 121 - 100"
proof -
  let ?ins = "[(100, closed_cells [(0, 0)]), (121, closed_cells [])]"
  let ?outs = "[(key00_held 100, [(0, 0)]), (key00_released 100, [])]"
  have run: "scans boot_scanner ?ins = Inr ?outs"
    by (simp add: scan_boot_press scan_held_release)
  have r: "0 < num_rows boot_scanner" and c: "0 < num_cols boot_scanner"
    by (simp_all add: boot_scanner_def MatrixScanner_init_def)
  have ij: "(0::nat) < 1" "1 < length ?ins" by simp_all
  have p0: "\<not> pressed (state_before boot_scanner ?outs 0) 0 0"
    by (simp add: state_before_def pressed_examples)
  have p1: "pressed (fst (?outs ! 0)) 0 0"
    by (simp add: pressed_examples)
  have none: "\<forall>k. 0 < k \<and> k < 1 \<longrightarrow>
        \<not> (\<not> pressed (state_before boot_scanner ?outs k) 0 0 \<and> pressed (fst (?outs ! k)) 0 0)"
    by simp
  have flip: "pressed (fst (?outs ! 1)) 0 0 \<noteq> pressed (state_before boot_scanner ?outs 1) 0 0"
    by (simp add: state_before_def pressed_examples)
  from flip_waits_for_press_window [OF run wf_boot r c ij p0 p1 none flip]
  have "debounce_ms boot_scanner < 121 - 100" by simp
  with run show ?thesis by (simp add: wf_boot pressed_examples)
qed

text \<open>
  C1 (as stated) fails: on the booted scanner, cell (0, 0) is pressed at 100 ms, released
  at 121 ms and pressed again at 122 ms. The release and the second press are 1 ms apart,
  less than the window of 20 ms, and both are accepted: the state flips twice.
\<close>

theorem release_then_press_inside_window:
  "scans boot_scanner
     [(100, closed_cells [(0, 0)]), (121, closed_cells []), (122, closed_cells [(0, 0)])] =
   Inr [(key00_held 100, [(0, 0)]), (key00_released 100, []), (key00_held 122, [(0, 0)])] \<and>
   pressed (key00_held 100) 0 0 \<and> \<not> pressed (key00_released 100) 0 0 \<and>
   pressed (key00_held 122) 0 0 \<and> (122 :: real) - 121 < DEBOUNCE_MS"
  by (simp add: scan_boot_press scan_held_release scan_released_press pressed_examples
      DEBOUNCE_MS_def)

text \<open>
  C3 (as the code has it). A call of scan returns exactly the cells whose accepted
  transition in this call is a press; a cell whose accepted transition is a release
  changes its stored state and is not in the returned list.
\<close>

theorem scan_returns_accepted_presses:
  assumes "scan s raw t = Inr (s', ks)" "wf_scanner s"
  shows "set ks = {(r, c). r < num_rows s \<and> c < num_cols s \<and>
                     \<not> pressed s r c \<and> pressed s' r c}"
proof -
  have "(r, c) \<in> set ks \<longleftrightarrow>
          r < num_rows s \<and> c < num_cols s \<and> \<not> pressed s r c \<and> pressed s' r c" for r c
  proof (cases "r < num_rows s \<and> c < num_cols s")
    case True
    from scan_cell [OF assms, of r c] True scan_keys [OF assms]
    show ?thesis by (auto split: if_splits)
  next
    case False
    with scan_keys [OF assms] show ?thesis by auto
  qed
  then show ?thesis by auto
qed

theorem scan_returns_accepted_presses_witness:
  "scan boot_scanner (closed_cells [(0, 0)]) 100 = Inr (key00_held 100, [(0, 0)]) \<and>
   wf_scanner boot_scanner \<and>
   set [(0, 0)] = {(r, c). r < num_rows boot_scanner \<and> c < num_cols boot_scanner \<and>
                     \<not> pressed boot_scanner r c \<and> pressed (key00_held 100) r c}"
  using scan_returns_accepted_presses [OF scan_boot_press wf_boot]
  by (simp add: scan_boot_press wf_boot)

text \<open>
  C3 (as stated) fails: with cell (0, 0) held since 100 ms and the key open at 121 ms, the
  release is accepted (the stored state becomes False) and scan returns the empty list.
\<close>

theorem accepted_release_returns_nothing:
  "pressed (key00_held 100) 0 0 \<and>
   scan (key00_held 100) (closed_cells []) 121 = Inr (key00_released 100, []) \<and>
   \<not> pressed (key00_released 100) 0 0"
  by (simp add: scan_held_release pressed_examples)

text \<open>
  C9. In every scan call and for every cell: an accepted release leaves the cell's
  \<^verbatim>\<open>last_press_time\<close> as it was; the timestamp changes only at an accepted press, and an
  accepted press sets it to the time of the call.
\<close>

theorem release_keeps_last_press_time:
  assumes "scan s raw t = Inr (s', ks)" "wf_scanner s" "r < num_rows s" "c < num_cols s"
  shows "(pressed s r c \<and> \<not> pressed s' r c \<longrightarrow> stamp s' r c = stamp s r c) \<and>
         (stamp s' r c \<noteq> stamp s r c \<longrightarrow> \<not> pressed s r c \<and> pressed s' r c) \<and>
         (\<not> pressed s r c \<and> pressed s' r c \<longrightarrow> stamp s' r c = t)"
  using scan_cell [OF assms] by (auto split: if_splits)

theorem release_keeps_last_press_time_witness:
  "scan (key00_held 100) (closed_cells []) 121 = Inr (key00_released 100, []) \<and>
   wf_scanner (key00_held 100) \<and>
   pressed (key00_held 100) 0 0 \<and> \<not> pressed (key00_released 100) 0 0 \<and>
   stamp (key00_released 100) 0 0 = stamp (key00_held 100) 0 0"
proof -
  have wf: "wf_scanner (key00_held 100)"
    by (simp add: wf_scanner_def dims_def key00_held_def boot_scanner_def MatrixScanner_init_def)
  have r: "0 < num_rows (key00_held 100)" and c: "0 < num_cols (key00_held 100)"
    by (simp_all add: key00_held_def boot_scanner_def MatrixScanner_init_def)
  from release_keeps_last_press_time [OF scan_held_release wf r c]
  show ?thesis by (simp add: scan_held_release wf pressed_examples)
qed

text \<open>
  C5. On an enabled encoder whose position read succeeds, the rotation reported by a
  poll is the sign of the position minus \<^verbatim>\<open>last_position\<close>, and \<^verbatim>\<open>last_position\<close> is the
  position read afterwards (so it keeps its value when the delta is zero); the loop adds
  that sign to \<^verbatim>\<open>current_encoder_value\<close> and writes a volume key only when it is not
  zero. With positions 0, 1, 1, 2 over four polls the rotations are 0, +1, 0, +1 (the three
  deltas give +1, 0, +1) and the counter is 0, 1, 1, 2.
\<close>

theorem rotation_is_sign_of_delta:
  "(enabled s \<and> w \<noteq> Inl KeyboardInterrupt \<longrightarrow>
      (\<exists>clicked acc s'.
          update s (Inr p) w = Inr ((sgn (p - last_position s), clicked), acc, s') \<and>
          last_position s' = p)) \<and>
   (enabled (encoder st) \<and> position_read env = Inr q \<and> switch_read env = Inr True \<longrightarrow>
      (\<exists>st'. handle_encoder env (st, out) =
                 Inr (st', out @ (if q > last_position (encoder st) then [Write KC_AUDIO_VOL_UP]
                                  else if q < last_position (encoder st)
                                  then [Write KC_AUDIO_VOL_DOWN] else [])) \<and>
              current_encoder_value st' =
                current_encoder_value st + sgn (q - last_position (encoder st)))) \<and>
   updates boot_encoder
     [(Inr 0, Inr True), (Inr 1, Inr True), (Inr 1, Inr True), (Inr 2, Inr True)] =
     Inr ([(0, False), (1, False), (0, False), (1, False)],
          [ReadPosition, ReadSwitch, ReadPosition, ReadSwitch,
           ReadPosition, ReadSwitch, ReadPosition, ReadSwitch],
          boot_encoder\<lparr> last_position := 2 \<rparr>) \<and>
   map (current_encoder_value \<circ> fst)
     (fst (main_loop (boot_firmware 0)
        [observe 0.1 [] 0 True, observe 0.2 [] 1 True, observe 0.3 [] 1 True,
         observe 0.4 [] 2 True])) = [0, 1, 1, 2]"
proof (intro conjI impI)
  assume a: "enabled s \<and> w \<noteq> Inl KeyboardInterrupt"
  show "\<exists>clicked acc s'.
          update s (Inr p) w = Inr ((sgn (p - last_position s), clicked), acc, s') \<and>
          last_position s' = p"
  proof (cases w)
    case (Inl e)
    with a have "is_Exception e" by (simp add: is_Exception_def)
    with a Inl show ?thesis by (auto simp: update_switch_fault)
  next
    case (Inr v)
    with a show ?thesis by (simp add: update_reads_ok)
  qed
next
  assume a: "enabled (encoder st) \<and> position_read env = Inr q \<and> switch_read env = Inr True"
  then show "\<exists>st'. handle_encoder env (st, out) =
                 Inr (st', out @ (if q > last_position (encoder st) then [Write KC_AUDIO_VOL_UP]
                                  else if q < last_position (encoder st)
                                  then [Write KC_AUDIO_VOL_DOWN] else [])) \<and>
              current_encoder_value st' =
                current_encoder_value st + sgn (q - last_position (encoder st))"
    by (simp add: handle_encoder_reads_ok Let_def sgn_if)
next
  show "updates boot_encoder
     [(Inr 0, Inr True), (Inr 1, Inr True), (Inr 1, Inr True), (Inr 2, Inr True)] =
     Inr ([(0, False), (1, False), (0, False), (1, False)],
          [ReadPosition, ReadSwitch, ReadPosition, ReadSwitch,
           ReadPosition, ReadSwitch, ReadPosition, ReadSwitch],
          boot_encoder\<lparr> last_position := 2 \<rparr>)"
    by (simp add: boot_encoder_def update_def)
next
  show "map (current_encoder_value \<circ> fst)
     (fst (main_loop (boot_firmware 0)
        [observe 0.1 [] 0 True, observe 0.2 [] 1 True, observe 0.3 [] 1 True,
         observe 0.4 [] 2 True])) = [0, 1, 1, 2]"
    by (rule scenario2)
qed

theorem rotation_is_sign_of_delta_witness:
  "enabled boot_encoder \<and> (Inr True :: py_exn + bool) \<noteq> Inl KeyboardInterrupt \<and>
   (\<exists>clicked acc s'. update boot_encoder (Inr 5) (Inr True) = Inr ((1, clicked), acc, s') \<and>
      last_position s' = 5) \<and>
   enabled (encoder (boot_firmware 0)) \<and>
   position_read (observe 0.1 [] (- 3) True) = Inr (- 3) \<and>
   switch_read (observe 0.1 [] (- 3) True) = Inr True \<and>
   (\<exists>st'. handle_encoder (observe 0.1 [] (- 3) True) (boot_firmware 0, []) =
              Inr (st', [Write KC_AUDIO_VOL_DOWN]) \<and>
           current_encoder_value st' = - 1)"
proof -
  have e: "enabled boot_encoder" "last_position boot_encoder = 0"
    by (simp_all add: boot_encoder_def)
  have f: "enabled (encoder (boot_firmware 0))" "last_position (encoder (boot_firmware 0)) = 0"
    "current_encoder_value (boot_firmware 0) = 0"
    by (simp_all add: boot_firmware_def firmware_init_def boot_encoder_def)
  have o: "position_read (observe 0.1 [] (- 3) True) = Inr (- 3)"
    "switch_read (observe 0.1 [] (- 3) True) = Inr True"
    by (simp_all add: observe_def)
  from rotation_is_sign_of_delta [where s = boot_encoder and w = "Inr True" and p = 5
      and st = "boot_firmware 0" and env = "observe 0.1 [] (- 3) True" and q = "- 3"
      and out = "[]"]
  show ?thesis
    using e f o by simp
qed

text \<open>
  C6. The switch is pulled up: the button level is asserted when the pin reads False.
  On an enabled encoder, a poll that reads the button up followed by \<open>N \<ge> 1\<close> polls that
  read it down reports \<^verbatim>\<open>button_pressed\<close> once, on the first poll of the run: the
  results are False, True, and then False \<open>N - 1\<close> times.
\<close>

theorem held_button_clicks_once:
  assumes "enabled s" "ps \<noteq> []"
  shows "\<exists>rots acc s'. length rots = Suc (length ps) \<and>
     updates s ((Inr p0, Inr True) # map (\<lambda>p. (Inr p, Inr False)) ps) =
       Inr (zip rots (False # True # replicate (length ps - 1) False), acc, s')"
proof -
  obtain p ps' where ps: "ps = p # ps'" using assms(2) by (cases ps) simp_all
  let ?s1 = "s\<lparr> last_position := p0, last_switch_state := True \<rparr>"
  let ?s2 = "?s1\<lparr> last_position := p, last_switch_state := False \<rparr>"
  have "enabled ?s2" "\<not> last_switch_state ?s2" using assms(1) by simp_all
  from updates_button_held [OF this, of ps'] obtain rots acc s' where
    l: "length rots = length ps'" and
    u: "updates ?s2 (map (\<lambda>p. (Inr p, Inr False)) ps') =
          Inr (zip rots (replicate (length ps') False), acc, s')"
    by blast
  let ?rots = "sgn (p0 - last_position s) # sgn (p - p0) # rots"
  have "length ?rots = Suc (length ps)" using l ps by simp
  moreover have "updates s ((Inr p0, Inr True) # map (\<lambda>p. (Inr p, Inr False)) ps) =
       Inr (zip ?rots (False # True # replicate (length ps - 1) False),
            [ReadPosition, ReadSwitch] @ [ReadPosition, ReadSwitch] @ acc, s')"
    using assms(1) u ps by (simp add: update_reads_ok)
  ultimately show ?thesis by blast
qed

theorem held_button_clicks_once_witness:
  "enabled boot_encoder \<and> [0, 0 :: int] \<noteq> [] \<and>
   (\<exists>rots acc s'. length rots = 3 \<and>
      updates boot_encoder [(Inr 0, Inr True), (Inr 0, Inr False), (Inr 0, Inr False)] =
        Inr (zip rots [False, True, False], acc, s'))"
  using held_button_clicks_once [of boot_encoder "[0, 0]" 0]
  by (simp add: boot_encoder_def numeral_3_eq_3 del: updates.simps)

text \<open>
  C8. When the construction of the encoder fails with an exception (on the encoder or on
  the switch), the controller is built with \<^verbatim>\<open>enabled = False\<close>; from then on every
  poll, whatever the hardware would give, returns (0, False) without raising, reads no
  hardware, and leaves the controller as it is, so it stays disabled.
\<close>

theorem failed_init_disables_encoder:
  assumes "encoder_fault = Some e \<or> (encoder_fault = None \<and> switch_fault = Some e)"
    and "is_Exception e"
  shows "\<exists>s. EncoderController_init encoder_fault switch_fault = Inr s \<and> \<not> enabled s \<and>
     (\<forall>polls. updates s polls = Inr (replicate (length polls) (0, False), [], s))"
proof -
  let ?s = "\<lparr> enabled = False, last_position = 0, last_switch_state = True \<rparr>"
  have "EncoderController_init encoder_fault switch_fault = Inr ?s"
    using assms by (auto simp: EncoderController_init_def)
  moreover have "\<not> enabled ?s" by simp
  ultimately show ?thesis using updates_disabled [of ?s] by blast
qed

theorem failed_init_disables_encoder_witness:
  "is_Exception OSError \<and>
   (\<exists>s. EncoderController_init (Some OSError) None = Inr s \<and> \<not> enabled s \<and>
      updates s [(Inr 7, Inr False), (Inl KeyboardInterrupt, Inr True)] =
        Inr ([(0, False), (0, False)], [], s))"
proof -
  have e: "is_Exception OSError" by (simp add: is_Exception_def)
  from failed_init_disables_encoder [of "Some OSError" OSError None, OF _ e]
  obtain s where "EncoderController_init (Some OSError) None = Inr s" "\<not> enabled s"
    "\<forall>polls. updates s polls = Inr (replicate (length polls) (0, False), [], s)"
    by auto
  then have "EncoderController_init (Some OSError) None = Inr s \<and> \<not> enabled s \<and>
      updates s [(Inr 7, Inr False), (Inl KeyboardInterrupt, Inr True)] =
        Inr ([(0, False), (0, False)], [], s)"
    by (simp del: updates.simps)
  with e show ?thesis by blast
qed

text \<open>
  C2 (the code at the failing input). The loop starts at 10 s. The pass at 10.5 s sees
  key (0, 0) closed, writes the key and shows the status. The next pass, at 11 s with the
  key still held (no new action), calls \<^verbatim>\<open>show_time\<close>: the clock is back 0.5 s after
  the action.
\<close>

theorem clock_returns_half_a_second_after_key:
  "map snd (fst (main_loop (boot_firmware 10)
      [observe 10.5 [(0, 0)] 0 True, observe 11 [(0, 0)] 0 True])) =
   [[Write KC_MEDIA_PREV_TRACK, ShowStatus 0 0 (Some (Formatted KC_MEDIA_PREV_TRACK))],
    [ShowTime]]"
  by (simp add: loop_eval scan_boot_press_at scan_held_still handle_encoder_def
      ENCODER_ENABLED_def update_def keyboard_keymap_def py_index_def MATRIX_COLS_def)

text \<open>
  C4 (as the code has it). While every matrix read succeeds, the loop runs every pass to
  its end, whatever exceptions the encoder reads raise, whether or not the encoder is
  enabled, and also when the layer index is past the keymap; a pass whose position read
  raises leaves the state and the calls of the encoder part as they were. A matrix read
  that raises is not caught: the pass does not complete and the exception leaves the loop.
\<close>

theorem loop_survives_encoder_and_layer_faults:
  "(loop_ready st \<and> (\<forall>env\<in>set envs. matrix_reads_ok env \<and> no_interrupt env) \<longrightarrow>
      snd (main_loop st envs) = None \<and> length (fst (main_loop st envs)) = length envs) \<and>
   (position_read env1 = Inl e1 \<and> is_Exception e1 \<longrightarrow>
      handle_encoder env1 (st1, out1) = Inr (st1, out1)) \<and>
   (wf_scanner (matrix_scanner st2) \<and> r < num_rows (matrix_scanner st2) \<and>
    c < num_cols (matrix_scanner st2) \<and> matrix_raw env2 r c = Inl e2 \<longrightarrow>
      (\<exists>e'. tick st2 env2 = Inl e' \<and> main_loop st2 (env2 # rest) = ([], Some e')))"
  using main_loop_ok [of st envs] handle_encoder_position_fault [of env1 e1 st1 out1]
    tick_matrix_fault [of st2 r c env2 e2 rest]
  by blast

theorem loop_survives_encoder_and_layer_faults_witness:
  "loop_ready ((boot_firmware 0)\<lparr> current_layer := 5 \<rparr>) \<and>
   matrix_reads_ok ((observe 0.1 [(0, 0)] 0 True)\<lparr> position_read := Inl OSError \<rparr>) \<and>
   no_interrupt ((observe 0.1 [(0, 0)] 0 True)\<lparr> position_read := Inl OSError \<rparr>) \<and>
   snd (main_loop ((boot_firmware 0)\<lparr> current_layer := 5 \<rparr>)
          [(observe 0.1 [(0, 0)] 0 True)\<lparr> position_read := Inl OSError \<rparr>]) = None \<and>
   is_Exception OSError \<and>
   handle_encoder ((observe 0.1 [(0, 0)] 0 True)\<lparr> position_read := Inl OSError \<rparr>)
     (boot_firmware 0, []) = Inr (boot_firmware 0, []) \<and>
   wf_scanner (matrix_scanner (boot_firmware 0)) \<and>
   (\<exists>e'. tick (boot_firmware 0)
            ((observe 0.1 [] 0 True)\<lparr> matrix_raw := failing_at 1 1 OSError \<rparr>) = Inl e')"
proof -
  let ?st = "(boot_firmware 0)\<lparr> current_layer := 5 \<rparr>"
  let ?env = "(observe 0.1 [(0, 0)] 0 True)\<lparr> position_read := Inl OSError \<rparr>"
  let ?bad = "(observe 0.1 [] 0 True)\<lparr> matrix_raw := failing_at 1 1 OSError \<rparr>"
  have a: "loop_ready ?st" by (rule loop_ready_boot) simp
  have b: "matrix_reads_ok ?env"
    by (simp add: matrix_reads_ok_def observe_def closed_cells_def list_all_iff)
  have c: "no_interrupt ?env" by (simp add: no_interrupt_def observe_def)
  have d: "position_read ?env = Inl OSError" "is_Exception OSError"
    by (simp_all add: is_Exception_def)
  have w: "wf_scanner (matrix_scanner (boot_firmware 0))"
    "1 < num_rows (matrix_scanner (boot_firmware 0))"
    "1 < num_cols (matrix_scanner (boot_firmware 0))"
    "matrix_raw ?bad 1 1 = Inl OSError"
    by (simp_all add: boot_firmware_scanner wf_boot boot_scanner_size failing_at_def)
  from loop_survives_encoder_and_layer_faults [of ?st "[?env]" ?env OSError "boot_firmware 0" "[]"
      "boot_firmware 0" 1 1 ?bad OSError "[]"]
  show ?thesis using a b c d w by auto
qed

text \<open>
  C4 (as stated) fails: one pin read of the matrix raises OSError in the first pass; the
  pass does not complete, \<^verbatim>\<open>main\<close> is left with that exception, the second pass
  never runs and the guard reports an unexpected error.
\<close>

theorem matrix_read_fault_ends_loop:
  "main_loop (boot_firmware 0)
     [(observe 0.1 [] 0 True)\<lparr> matrix_raw := failing_at 1 1 OSError \<rparr>,
      observe 0.2 [] 0 True] = ([], Some OSError) \<and>
   is_Exception OSError \<and> guard_message OSError = ''[ERROR] Unexpected error''"
  by (simp add: tick_def observe_def boot_firmware_def firmware_init_def Let_def
        scan_def failing_at_def debounce_cell_def get2_def set2_def
        MatrixScanner_init_def DEBOUNCE_MS_def numeral_3_eq_3 is_Exception_def
        guard_message_def)

text \<open>
  C7. When the layer index is at or past the length of the keymap, the loop over the
  pressed keys returns normally and changes nothing: no key is written, no status is
  shown, for every list of pressed cells.
\<close>

theorem layer_past_keymap_is_noop:
  "int (length (keymap st)) \<le> current_layer st \<Longrightarrow>
   handle_keys t keys (st, out) = Inr (st, out)"
  by (rule handle_keys_no_layer)

theorem layer_past_keymap_is_noop_witness:
  "int (length (keymap ((boot_firmware 0)\<lparr> current_layer := 1 \<rparr>))) \<le>
     current_layer ((boot_firmware 0)\<lparr> current_layer := 1 \<rparr>) \<and>
   handle_keys 3 [(0, 0), (2, 2)] ((boot_firmware 0)\<lparr> current_layer := 1 \<rparr>, []) =
     Inr ((boot_firmware 0)\<lparr> current_layer := 1 \<rparr>, [])"
proof -
  have h: "int (length (keymap ((boot_firmware 0)\<lparr> current_layer := 1 \<rparr>))) \<le>
     current_layer ((boot_firmware 0)\<lparr> current_layer := 1 \<rparr>)"
    by (simp add: boot_firmware_def firmware_init_def keyboard_keymap_def)
  from layer_past_keymap_is_noop [OF h, of 3 "[(0, 0), (2, 2)]" "[]"] h
  show ?thesis by (simp del: handle_keys.simps)
qed

text \<open>
  C10. When a poll reports a click, the loop writes the mute key and calls
  \<^verbatim>\<open>show_status\<close> with the literal layer 0 and the label MUTE, whatever
  \<^verbatim>\<open>current_layer\<close> is. For pressed keys on an existing layer it calls \<^verbatim>\<open>show_status\<close>
  with \<^verbatim>\<open>current_layer\<close>. An enabled display whose drawing succeeds shows the status
  with the layer it was given.
\<close>

theorem mute_status_shows_layer_zero:
  "(update (encoder st) (position_read env) (switch_read env) =
      Inr ((rotation, True), acc, enc') \<longrightarrow>
      (\<exists>st' out'. handle_encoder env (st, out) =
          Inr (st', out' @ [Write KC_AUDIO_MUTE,
                ShowStatus 0 (current_encoder_value st') (Some (Literal ''MUTE''))]) \<and>
          current_layer st' = current_layer st)) \<and>
   (0 \<le> current_layer st1 \<and> current_layer st1 < int (length (keymap st1)) \<and>
    (\<forall>layer\<in>set (keymap st1). MATRIX_ROWS * MATRIX_COLS \<le> length layer) \<and>
    (\<forall>(row, col)\<in>set keys. row < MATRIX_ROWS \<and> col < MATRIX_COLS) \<longrightarrow>
      (\<exists>st' ks. handle_keys t keys (st1, out1) =
            Inr (st', out1 @ concat (map (\<lambda>k. [Write k,
                   ShowStatus (current_layer st1) (current_encoder_value st1)
                     (Some (Formatted k))]) ks)) \<and>
          length ks = length keys)) \<and>
   (display_enabled d \<longrightarrow>
      show_status d layer encoder_val last_key None =
        Inr (Some (Status layer encoder_val last_key)))"
proof (intro conjI impI)
  assume "update (encoder st) (position_read env) (switch_read env) =
      Inr ((rotation, True), acc, enc')"
  from handle_encoder_click [OF this]
  show "\<exists>st' out'. handle_encoder env (st, out) =
          Inr (st', out' @ [Write KC_AUDIO_MUTE,
                ShowStatus 0 (current_encoder_value st') (Some (Literal ''MUTE''))]) \<and>
          current_layer st' = current_layer st" .
next
  assume a: "0 \<le> current_layer st1 \<and> current_layer st1 < int (length (keymap st1)) \<and>
    (\<forall>layer\<in>set (keymap st1). MATRIX_ROWS * MATRIX_COLS \<le> length layer) \<and>
    (\<forall>(row, col)\<in>set keys. row < MATRIX_ROWS \<and> col < MATRIX_COLS)"
  then have a1: "0 \<le> current_layer st1" and a2: "current_layer st1 < int (length (keymap st1))"
    and a3: "\<forall>layer\<in>set (keymap st1). MATRIX_ROWS * MATRIX_COLS \<le> length layer"
    and a4: "\<forall>(row, col)\<in>set keys. row < MATRIX_ROWS \<and> col < MATRIX_COLS"
    by blast+
  from handle_keys_layer [OF a1 a2 a3 a4, of t out1]
  show "\<exists>st' ks. handle_keys t keys (st1, out1) =
            Inr (st', out1 @ concat (map (\<lambda>k. [Write k,
                   ShowStatus (current_layer st1) (current_encoder_value st1)
                     (Some (Formatted k))]) ks)) \<and>
          length ks = length keys"
    by blast
next
  assume "display_enabled d"
  then show "show_status d layer encoder_val last_key None =
        Inr (Some (Status layer encoder_val last_key))"
    by (simp add: show_status_def)
qed

theorem mute_status_shows_layer_zero_witness:
  "update (encoder two_layer_firmware) (position_read (observe 0.1 [] 0 False))
      (switch_read (observe 0.1 [] 0 False)) =
     Inr ((0, True), [ReadPosition, ReadSwitch], boot_encoder\<lparr> last_switch_state := False \<rparr>) \<and>
   current_layer two_layer_firmware = 1 \<and>
   (\<exists>st' out'. handle_encoder (observe 0.1 [] 0 False) (two_layer_firmware, []) =
       Inr (st', out' @ [Write KC_AUDIO_MUTE,
             ShowStatus 0 (current_encoder_value st') (Some (Literal ''MUTE''))])) \<and>
   current_layer two_layer_firmware < int (length (keymap two_layer_firmware)) \<and>
   (\<exists>st' ks. handle_keys 0.1 [(0, 0)] (two_layer_firmware, []) =
       Inr (st', concat (map (\<lambda>k. [Write k, ShowStatus 1 0 (Some (Formatted k))]) ks)) \<and>
       length ks = 1) \<and>
   display_enabled \<lparr> display_enabled = True \<rparr> \<and>
   show_status \<lparr> display_enabled = True \<rparr> 0 3 (Some (Literal ''MUTE'')) None =
     Inr (Some (Status 0 3 (Some (Literal ''MUTE''))))"
proof -
  let ?st = two_layer_firmware
  let ?env = "observe 0.1 [] 0 False"
  let ?d = "\<lparr> display_enabled = True \<rparr>"
  have u: "update (encoder ?st) (position_read ?env) (switch_read ?env) =
     Inr ((0, True), [ReadPosition, ReadSwitch], boot_encoder\<lparr> last_switch_state := False \<rparr>)"
    by (simp add: two_layer_firmware_def boot_firmware_def firmware_init_def observe_def
        boot_encoder_def update_def)
  have k: "0 \<le> current_layer ?st" "current_layer ?st < int (length (keymap ?st))"
    "\<forall>layer\<in>set (keymap ?st). MATRIX_ROWS * MATRIX_COLS \<le> length layer"
    "\<forall>(row, col)\<in>set [(0, 0)]. row < MATRIX_ROWS \<and> col < MATRIX_COLS"
    "current_layer ?st = 1" "current_encoder_value ?st = 0"
    by (simp_all add: two_layer_firmware_def boot_firmware_def firmware_init_def
        keyboard_keymap_def MATRIX_ROWS_def MATRIX_COLS_def)
  have d: "display_enabled ?d" by simp
  note inst = mute_status_shows_layer_zero [where st = ?st and env = ?env and rotation = 0
      and acc = "[ReadPosition, ReadSwitch]"
      and enc' = "boot_encoder\<lparr> last_switch_state := False \<rparr>" and out = "[]"
      and ?st1.0 = ?st and keys = "[(0, 0)]" and t = "0.1" and ?out1.0 = "[]" and d = ?d
      and layer = 0 and encoder_val = 3 and last_key = "Some (Literal ''MUTE'')"]
  have 1: "\<exists>st' out'. handle_encoder ?env (?st, []) =
       Inr (st', out' @ [Write KC_AUDIO_MUTE,
             ShowStatus 0 (current_encoder_value st') (Some (Literal ''MUTE''))])"
    using inst u by blast
  have 2: "\<exists>st' ks. handle_keys 0.1 [(0, 0)] (?st, []) =
       Inr (st', concat (map (\<lambda>k. [Write k, ShowStatus 1 0 (Some (Formatted k))]) ks)) \<and>
       length ks = 1"
    using inst k by (simp del: handle_keys.simps)
  have 3: "show_status ?d 0 3 (Some (Literal ''MUTE'')) None =
     Inr (Some (Status 0 3 (Some (Literal ''MUTE''))))"
    using inst d by blast
  from u k 1 2 3 show ?thesis by simp
qed

end
